theory Spec2Isabelle
  imports Main "HOL-Library.Extended_Nat"
begin

section \<open>H5DataSource: minibatch assembly over an HDF5 data group\<close>

text \<open>
  A shallow embedding of \<^verbatim>\<open>bindings/python/cntk/io/h5reader.py\<close>. The class
  \<^verbatim>\<open>H5DataSource\<close> keeps a cursor \<^verbatim>\<open>next_idx\<close> into a group of HDF5 datasets and
  hands out minibatches, wrapping around the end of the data.
\<close>

subsection \<open>Data model\<close>

text \<open>The Python exceptions the code can raise.\<close>

datatype error =
    KeyError string
  | IndexError
  | ZeroDivisionError
  | ValueError
  | TypeError
  | UnboundLocalError

text \<open>
  One h5py dataset. \<^verbatim>\<open>attrs\<close> is a dictionary; the three keys the code reads are
  optional fields. \<^verbatim>\<open>attrs['shape']\<close> is held as the list that
  \<^verbatim>\<open>np.array(...).tolist()\<close> yields; a shape has natural-number extents, kept in an
  array of 64-bit integers when there is at least one and of floats when there is none
  (\<^verbatim>\<open>np.array([])\<close>). \<^verbatim>\<open>dataset.shape[1:]\<close> and \<^verbatim>\<open>dataset.dtype\<close> are stored as
  they are, and \<^verbatim>\<open>dataset.shape[0]\<close> is the number of records.

  Record \<open>i\<close> of the dataset is kept as its row-major block of elements. Its shape
  \<^verbatim>\<open>dataset[i].shape\<close> is not stored with it: the records of a variable-length dataset
  (\<open>ds_vlen\<close>, an h5py \<^verbatim>\<open>special_dtype(vlen=...)\<close>) are one-dimensional arrays, so the
  shape is the length of the block; every record of another dataset has the shape
  \<^verbatim>\<open>dataset.shape[1:]\<close>, and is a numpy scalar when that is empty.
\<close>

record 'a h5dataset =
  attrs_is_seq :: "bool option"
  attrs_shape :: "nat list option"
  attrs_dtype :: "string option"
  ds_vlen :: bool
  ds_shape_tail :: "nat list"
  ds_dtype :: string
  ds_records :: "'a list list"

datatype device_descriptor = CPU | GPU nat

text \<open>\<^verbatim>\<open>StreamInformation(name, i, storage_format, dtype, dshape)\<close>.\<close>

record stream_information =
  si_name :: string
  si_stream_id :: nat
  si_storage_format :: string
  si_dtype :: string
  si_shape :: "nat list"

text \<open>
  The fields of an \<^verbatim>\<open>H5DataSource\<close> object. Both dictionaries are association lists in
  insertion order, which is the order Python iterates them in.
\<close>

record 'a H5DataSource =
  device :: device_descriptor
  datagroup :: "(string \<times> 'a h5dataset) list"
  stream_info_mapping :: "(string \<times> stream_information) list"
  num_data_points :: nat
  next_idx :: nat

text \<open>
  An n-dimensional array as nested lists, the result of \<^verbatim>\<open>np.reshape\<close>; a record that is
  passed through untouched stays a flat block.
\<close>

datatype 'a ndarray = Scalar 'a | Array "'a ndarray list"

datatype 'a batch_payload = SeqData "'a ndarray list" | RawData "'a list list"

text \<open>
  \<^verbatim>\<open>Value.create(var=sequence.input_variable(shape=s), data=d, device=dev)\<close> is the
  tensor builder, outside this file: the model records its three arguments.
\<close>

record 'a cntk_value =
  var_shape :: "nat list"
  payload :: "'a batch_payload"
  on_device :: device_descriptor

text \<open>\<^verbatim>\<open>MinibatchData(data, num_seq, sample_count, sweep_end)\<close>.\<close>

record 'a MinibatchData =
  md_data :: "'a cntk_value"
  num_sequences :: nat
  num_samples :: int
  sweep_end :: bool

subsection \<open>Construction\<close>

text \<open>\<^verbatim>\<open>'is_seq' in dataset.attrs and dataset.attrs['is_seq']\<close>\<close>

definition is_seq_attr :: "'a h5dataset \<Rightarrow> bool" where
  "is_seq_attr dataset = (case attrs_is_seq dataset of None \<Rightarrow> False | Some b \<Rightarrow> b)"

text \<open>\<^verbatim>\<open>dataset.attrs['shape']\<close> raises \<^verbatim>\<open>KeyError\<close> when the attribute is absent.\<close>

definition dataset_shape_fn :: "'a h5dataset \<Rightarrow> error + nat list" where
  "dataset_shape_fn dataset =
     (case attrs_shape dataset of
        None \<Rightarrow> Inl (KeyError ''shape'')
      | Some dshape \<Rightarrow> Inr dshape)"

text \<open>Python's \<^verbatim>\<open>d[k] = v\<close> on a dictionary held in insertion order.\<close>

fun dict_set :: "'k \<Rightarrow> 'v \<Rightarrow> ('k \<times> 'v) list \<Rightarrow> ('k \<times> 'v) list" where
  "dict_set k v [] = [(k, v)]"
| "dict_set k v (p # ps) = (if fst p = k then (k, v) # ps else p # dict_set k v ps)"

text \<open>
  The body of the loop of \<^verbatim>\<open>__init__\<close> up to the construction of \<^verbatim>\<open>strm_info\<close>.
  A dtype is kept as its name: \<^verbatim>\<open>np.dtype(s)\<close> is \<open>s\<close>.
\<close>

definition make_stream_info :: "nat \<Rightarrow> string \<Rightarrow> 'a h5dataset \<Rightarrow> error + stream_information" where
  "make_stream_info i name dataset =
     (if is_seq_attr dataset then
        (case dataset_shape_fn dataset of
           Inl e \<Rightarrow> Inl e
         | Inr dshape \<Rightarrow>
             (case attrs_dtype dataset of
                None \<Rightarrow> Inl (KeyError ''dtype'')
              | Some dt \<Rightarrow>
                  Inr \<lparr>si_name = name, si_stream_id = i, si_storage_format = ''dense'',
                       si_dtype = dt, si_shape = dshape\<rparr>))
      else
        Inr \<lparr>si_name = name, si_stream_id = i, si_storage_format = ''dense'',
             si_dtype = ds_dtype dataset, si_shape = ds_shape_tail dataset\<rparr>)"

text \<open>
  The loop \<^verbatim>\<open>for i, name in enumerate(datagroup)\<close>. \<^verbatim>\<open>datagroup[name]\<close>, for a name the
  iteration of the same dictionary has just produced, is the dataset stored with it.
  \<^verbatim>\<open>num_data_points\<close> is a local that each round overwrites; it is unbound before the first.
\<close>

fun init_loop ::
  "nat \<Rightarrow> (string \<times> 'a h5dataset) list \<Rightarrow> (string \<times> stream_information) list \<Rightarrow> nat option
   \<Rightarrow> error + ((string \<times> stream_information) list \<times> nat option)" where
  "init_loop i [] stream_infos ndp = Inr (stream_infos, ndp)"
| "init_loop i ((name, dataset) # rest) stream_infos ndp =
     (case make_stream_info i name dataset of
        Inl e \<Rightarrow> Inl e
      | Inr strm_info \<Rightarrow>
          init_loop (Suc i) rest (dict_set name strm_info stream_infos)
            (Some (length (ds_records dataset))))"

definition H5DataSource_init ::
  "(string \<times> 'a h5dataset) list \<Rightarrow> device_descriptor \<Rightarrow> error + 'a H5DataSource" where
  "H5DataSource_init dg dev =
     (case init_loop 0 dg [] None of
        Inl e \<Rightarrow> Inl e
      | Inr (stream_infos, ndp) \<Rightarrow>
          (case ndp of
             None \<Rightarrow> Inl UnboundLocalError
           | Some n \<Rightarrow>
               Inr \<lparr>device = dev, datagroup = dg, stream_info_mapping = stream_infos,
                    num_data_points = n, next_idx = 0\<rparr>))"

subsection \<open>numpy numbers\<close>

text \<open>
  numpy computes on 64-bit integers and wraps around: \<open>int64 x\<close> is the value of the
  64-bit two's complement integer that holds \<open>x\<close> modulo \<open>2^64\<close>.
\<close>

definition int64 :: "int \<Rightarrow> int" where
  "int64 x = (x + 2 ^ 63) mod 2 ^ 64 - 2 ^ 63"

text \<open>
  The numbers the code computes with: an integer (of Python or of numpy, 64 bits wide
  where numpy made it), a float that holds an integer, and the float infinity. A float
  is held by its value, which is exact below \<open>2^53\<close>, more than the elements of any
  array there is.
\<close>

datatype np_num = IntNum int | FloatNum int | FloatInf

text \<open>
  \<^verbatim>\<open>np.prod\<close> of a shape: the product in 64-bit integers, starting from 1 and wrapping
  at every step; of an empty shape (the tuple \<^verbatim>\<open>()\<close> of a scalar record, or an empty
  attribute array) it is the float \<open>1.0\<close>.
\<close>

datatype np_size = IntSize int | FloatOne

definition np_prod :: "nat list \<Rightarrow> np_size" where
  "np_prod dims =
     (if dims = [] then FloatOne
      else IntSize (fold (\<lambda>d acc. int64 (acc * int d)) dims 1))"

text \<open>
  \<^verbatim>\<open>seq_size // elm_size\<close> on numpy scalars. On two integers it is the floored quotient
  in 64 bits, and 0 (with a warning, no exception) when the divisor is 0. When one side is
  the float \<open>1.0\<close> the result is a float: \<open>float(a) // 1.0\<close> is \<open>float(a)\<close>, and
  \<open>1.0 // b\<close> is the floor of \<open>1 / b\<close>, infinity when \<open>b\<close> is 0.
\<close>

fun floor_div :: "np_size \<Rightarrow> np_size \<Rightarrow> np_num" where
  "floor_div (IntSize a) (IntSize b) = IntNum (if b = 0 then 0 else int64 (a div b))"
| "floor_div (IntSize a) FloatOne = FloatNum a"
| "floor_div FloatOne (IntSize b) = (if b = 0 then FloatInf else FloatNum (1 div b))"
| "floor_div FloatOne FloatOne = FloatNum 1"

text \<open>\<open>a < b\<close> on these numbers, and Python's \<^verbatim>\<open>max(a, b)\<close>, which is \<open>a\<close> unless \<open>a < b\<close>.\<close>

fun num_less :: "np_num \<Rightarrow> np_num \<Rightarrow> bool" where
  "num_less (IntNum a) (IntNum b) = (a < b)"
| "num_less (IntNum a) (FloatNum b) = (a < b)"
| "num_less (FloatNum a) (IntNum b) = (a < b)"
| "num_less (FloatNum a) (FloatNum b) = (a < b)"
| "num_less FloatInf y = False"
| "num_less x FloatInf = True"

definition py_max :: "np_num \<Rightarrow> np_num \<Rightarrow> np_num" where
  "py_max a b = (if num_less a b then b else a)"

text \<open>The value of a number that is not negative: a natural number or infinity.\<close>

fun np_count :: "np_num \<Rightarrow> enat" where
  "np_count (IntNum a) = enat (nat a)"
| "np_count (FloatNum a) = enat (nat a)"
| "np_count FloatInf = \<infinity>"

text \<open>
  \<^verbatim>\<open>sample_count < num_samples_in_batch\<close> and \<^verbatim>\<open>sample_count > num_samples_in_batch\<close>
  for a running total, which is never negative, and the requested integer.
\<close>

definition below :: "enat \<Rightarrow> int \<Rightarrow> bool" where
  "below x n = (case x of enat k \<Rightarrow> int k < n | \<infinity> \<Rightarrow> False)"

definition above :: "enat \<Rightarrow> int \<Rightarrow> bool" where
  "above x n = (case x of enat k \<Rightarrow> n < int k | \<infinity> \<Rightarrow> True)"

subsection \<open>Sample counts\<close>

text \<open>\<^verbatim>\<open>dataset[i].shape\<close> for the record whose block is \<open>seq\<close>.\<close>

definition record_shape :: "'a h5dataset \<Rightarrow> 'a list \<Rightarrow> nat list" where
  "record_shape dataset seq = (if ds_vlen dataset then [length seq] else ds_shape_tail dataset)"

text \<open>
  The method \<^verbatim>\<open>sample_count_\<close> (a constant name cannot end in an underscore, so the
  methods \<^verbatim>\<open>dataset_shape_\<close>, \<^verbatim>\<open>sample_count_\<close> and \<^verbatim>\<open>max_seq_len_\<close> carry the suffix
  \<open>fn\<close>). \<^verbatim>\<open>dataset[data_idx]\<close> raises outside the dataset.
\<close>

definition sample_count_fn :: "'a h5dataset \<Rightarrow> nat \<Rightarrow> error + np_num" where
  "sample_count_fn dataset data_idx =
     (if is_seq_attr dataset then
        (case attrs_shape dataset of
           None \<Rightarrow> Inl (KeyError ''shape'')
         | Some elm_shape \<Rightarrow>
             (let elm_size = np_prod elm_shape in
              if data_idx < length (ds_records dataset) then
                (let seq_size = np_prod (record_shape dataset (ds_records dataset ! data_idx));
                     seq_len = floor_div seq_size elm_size
                 in Inr seq_len)
              else Inl IndexError))
      else Inr (IntNum 1))"

text \<open>The lookup \<^verbatim>\<open>self.stream_info_mapping[name]\<close>.\<close>

definition lookup_stream_info :: "'a H5DataSource \<Rightarrow> string \<Rightarrow> error + stream_information" where
  "lookup_stream_info self name =
     (case map_of (stream_info_mapping self) name of
        None \<Rightarrow> Inl (KeyError name)
      | Some strm_info \<Rightarrow> Inr strm_info)"

text \<open>
  \<^verbatim>\<open>max_seq_len_\<close>: \<open>mx_len\<close> starts at the integer 0 and is replaced by a sample count
  that is greater, so what is returned is never negative. Its callers only add and
  compare it, and it is returned by its value.
\<close>

fun max_seq_len_loop ::
  "'a H5DataSource \<Rightarrow> (string \<times> 'a h5dataset) list \<Rightarrow> nat \<Rightarrow> np_num \<Rightarrow> error + np_num" where
  "max_seq_len_loop self [] idx mx_len = Inr mx_len"
| "max_seq_len_loop self ((name, dataset) # rest) idx mx_len =
     (case lookup_stream_info self name of
        Inl e \<Rightarrow> Inl e
      | Inr strm_info \<Rightarrow>
          (case sample_count_fn dataset idx of
             Inl e \<Rightarrow> Inl e
           | Inr c \<Rightarrow> max_seq_len_loop self rest idx (py_max mx_len c)))"

definition max_seq_len_fn :: "'a H5DataSource \<Rightarrow> nat \<Rightarrow> error + enat" where
  "max_seq_len_fn self idx =
     (case max_seq_len_loop self (datagroup self) idx (IntNum 0) of
        Inl e \<Rightarrow> Inl e
      | Inr mx_len \<Rightarrow> Inr (np_count mx_len))"

subsection \<open>The record-selection loop\<close>

text \<open>
  The \<^verbatim>\<open>while\<close> loop of \<^verbatim>\<open>next_minibatch\<close>, from the state
  \<open>(sample_count, num_seq, end)\<close>. The loop may run forever, so the function is partial:
  \<open>None\<close> is "does not return". \<^verbatim>\<open>% self.num_data_points\<close> is on Python integers and
  raises when the divisor is 0. The running total is held by its value, a natural number
  or infinity: every contribution is at least 0, and the total is only compared with the
  request.
\<close>

partial_function (option) select_loop ::
  "'a H5DataSource \<Rightarrow> int \<Rightarrow> enat \<Rightarrow> nat \<Rightarrow> nat \<Rightarrow> (error + enat \<times> nat \<times> nat) option" where
  "select_loop self num_samples_in_batch sample_count num_seq end_idx =
     (if below sample_count num_samples_in_batch then
        (case max_seq_len_fn self end_idx of
           Inl e \<Rightarrow> Some (Inl e)
         | Inr max_seq_len \<Rightarrow>
             (let sample_count' = sample_count + max_seq_len;
                  num_seq' = num_seq + 1
              in if num_data_points self = 0 then Some (Inl ZeroDivisionError)
                 else
                   (let end_idx' = (end_idx + 1) mod num_data_points self
                    in if above sample_count' num_samples_in_batch
                       then Some (Inr (sample_count', num_seq', end_idx'))
                       else select_loop self num_samples_in_batch sample_count' num_seq' end_idx')))
      else Some (Inr (sample_count, num_seq, end_idx)))"

declare select_loop.simps [code]

subsection \<open>Extraction and reshaping\<close>

text \<open>
  A slice \<^verbatim>\<open>xs[a:b]\<close> with bounds that are not negative: Python and h5py clip it to the
  data, and it is empty when \<open>b \<le> a\<close>.
\<close>

definition py_slice :: "nat \<Rightarrow> nat \<Rightarrow> 'a list \<Rightarrow> 'a list" where
  "py_slice a b xs = drop a (take b xs)"

text \<open>The records a stream contributes: the two branches on \<^verbatim>\<open>sweep_end\<close>.\<close>

definition extract_data :: "'a H5DataSource \<Rightarrow> 'a h5dataset \<Rightarrow> nat \<Rightarrow> nat \<Rightarrow> bool \<Rightarrow> 'a list list" where
  "extract_data self dataset start end_idx sweep =
     (if sweep then
        py_slice start (num_data_points self) (ds_records dataset) @
        py_slice 0 end_idx (ds_records dataset)
      else py_slice start end_idx (ds_records dataset))"

text \<open>
  An array of the shape \<open>d # ds\<close> filled in row-major order: entry \<open>j\<close> along the first
  axis is filled from the \<open>j\<close>-th run of the elements.
\<close>

fun np_fill :: "nat list \<Rightarrow> 'a list \<Rightarrow> 'a ndarray" where
  "np_fill [] xs = (case xs of [] \<Rightarrow> Array [] | x # _ \<Rightarrow> Scalar x)"
| "np_fill (d # ds) xs =
     Array (map (\<lambda>j. np_fill ds (py_slice (j * prod_list ds) (Suc j * prod_list ds) xs)) [0..<d])"

text \<open>
  numpy's \<^verbatim>\<open>np.reshape(a, shape)\<close> for a shape of integers, in its default (row-major)
  order. A negative extent stands for the one unknown extent; the other extents are
  multiplied up one after the other, and a product beyond \<open>2^63 - 1\<close> is refused. With an
  unknown extent the product of the others has to divide the size of \<open>a\<close>, without one
  it has to be that size. Every refusal is a \<^verbatim>\<open>ValueError\<close>.
\<close>

fun mul_sizes :: "int list \<Rightarrow> int \<Rightarrow> int option" where
  "mul_sizes [] s_known = Some s_known"
| "mul_sizes (d # ds) s_known =
     (if d < 0 then mul_sizes ds s_known
      else if s_known * d > 2 ^ 63 - 1 then None
      else mul_sizes ds (s_known * d))"

definition np_reshape :: "'a list \<Rightarrow> int list \<Rightarrow> error + 'a ndarray" where
  "np_reshape a dshape =
     (if length (filter (\<lambda>d. d < 0) dshape) > 1 then Inl ValueError
      else
        (case mul_sizes dshape 1 of
           None \<Rightarrow> Inl ValueError
         | Some s_known \<Rightarrow>
             if list_ex (\<lambda>d. d < 0) dshape then
               (if s_known = 0 \<or> int (length a) mod s_known \<noteq> 0 then Inl ValueError
                else Inr (np_fill
                            (map (\<lambda>d. nat (if d < 0 then int (length a) div s_known else d)) dshape)
                            a))
             else
               (if int (length a) \<noteq> s_known then Inl ValueError
                else Inr (np_fill (map nat dshape) a))))"

text \<open>The elements of an array in row-major order, and its shape read along first entries.\<close>

fun np_ravel :: "'a ndarray \<Rightarrow> 'a list" where
  "np_ravel (Scalar x) = [x]"
| "np_ravel (Array as) = concat (map np_ravel as)"



text \<open>
  The loop \<^verbatim>\<open>for seq in data\<close> of a sequence stream, from the state
  \<open>(res_data, sample_count)\<close>. \<^verbatim>\<open>np.reshape\<close> raises \<^verbatim>\<open>TypeError\<close> for a shape that
  holds a float, which \<open>seq_len\<close> is for an empty element shape and for a scalar record.
  \<open>seq_len\<close> is a 64-bit integer otherwise, and so is the sum it is added to.
\<close>

fun reshape_loop ::
  "'a h5dataset \<Rightarrow> nat list \<Rightarrow> np_size \<Rightarrow> 'a list list \<Rightarrow> 'a ndarray list \<Rightarrow> int
   \<Rightarrow> error + ('a ndarray list \<times> int)" where
  "reshape_loop dataset elm_shape elm_size [] res_data sample_count =
     Inr (res_data, sample_count)"
| "reshape_loop dataset elm_shape elm_size (seq # rest) res_data sample_count =
     (let seq_size = np_prod (record_shape dataset seq);
          seq_len = floor_div seq_size elm_size
      in case seq_len of
           IntNum l \<Rightarrow>
             (case np_reshape seq ([l] @ map int elm_shape) of
                Inl e \<Rightarrow> Inl e
              | Inr r \<Rightarrow>
                  reshape_loop dataset elm_shape elm_size rest (res_data @ [r])
                    (int64 (sample_count + l)))
         | FloatNum x \<Rightarrow> Inl TypeError
         | FloatInf \<Rightarrow> Inl TypeError)"

subsection \<open>Packaging and the entry point\<close>

text \<open>One round of the loop \<^verbatim>\<open>for name in self.datagroup\<close> that builds the result.\<close>

definition batch_of_stream ::
  "'a H5DataSource \<Rightarrow> nat \<Rightarrow> nat \<Rightarrow> nat \<Rightarrow> bool \<Rightarrow> device_descriptor \<Rightarrow> string \<times> 'a h5dataset
   \<Rightarrow> error + (stream_information \<times> 'a MinibatchData)" where
  "batch_of_stream self start end_idx num_seq sweep mydevice entry =
     (case entry of (name, dataset) \<Rightarrow>
      (case lookup_stream_info self name of
         Inl e \<Rightarrow> Inl e
       | Inr strm_info \<Rightarrow>
           (let data = extract_data self dataset start end_idx sweep in
            if is_seq_attr dataset then
              (case attrs_shape dataset of
                 None \<Rightarrow> Inl (KeyError ''shape'')
               | Some elm_shape \<Rightarrow>
                   (let elm_size = np_prod elm_shape in
                    case reshape_loop dataset elm_shape elm_size data [] 0 of
                      Inl e \<Rightarrow> Inl e
                    | Inr (res_data, sample_count) \<Rightarrow>
                        Inr (strm_info,
                             \<lparr>md_data = \<lparr>var_shape = elm_shape, payload = SeqData res_data,
                                         on_device = mydevice\<rparr>,
                              num_sequences = num_seq, num_samples = sample_count,
                              sweep_end = sweep\<rparr>)))
            else
              Inr (strm_info,
                   \<lparr>md_data = \<lparr>var_shape = ds_shape_tail dataset, payload = RawData data,
                               on_device = mydevice\<rparr>,
                    num_sequences = num_seq, num_samples = int num_seq, sweep_end = sweep\<rparr>))))"

text \<open>
  The result dictionary is keyed by the \<^verbatim>\<open>StreamInformation\<close> objects, one per stream; it
  is held as the list of its entries in the order they are stored.
\<close>

fun result_loop ::
  "'a H5DataSource \<Rightarrow> nat \<Rightarrow> nat \<Rightarrow> nat \<Rightarrow> bool \<Rightarrow> device_descriptor
   \<Rightarrow> (string \<times> 'a h5dataset) list \<Rightarrow> (stream_information \<times> 'a MinibatchData) list
   \<Rightarrow> error + (stream_information \<times> 'a MinibatchData) list" where
  "result_loop self start end_idx num_seq sweep mydevice [] result = Inr result"
| "result_loop self start end_idx num_seq sweep mydevice (entry # rest) result =
     (case batch_of_stream self start end_idx num_seq sweep mydevice entry of
        Inl e \<Rightarrow> Inl e
      | Inr kv \<Rightarrow> result_loop self start end_idx num_seq sweep mydevice rest (result @ [kv]))"

text \<open>
  \<^verbatim>\<open>next_minibatch\<close>. The value is \<open>None\<close> when the selection loop never ends; otherwise
  it is the outcome (the exception raised or the result dictionary) and the object after
  the call. \<^verbatim>\<open>self.next_idx = end\<close> is executed right after the loop, so an exception
  raised later leaves the cursor moved, and one raised in the loop leaves it in place.
\<close>

definition next_minibatch ::
  "'a H5DataSource \<Rightarrow> int \<Rightarrow> nat \<Rightarrow> nat \<Rightarrow> device_descriptor option
   \<Rightarrow> ((error + (stream_information \<times> 'a MinibatchData) list) \<times> 'a H5DataSource) option" where
  "next_minibatch self num_samples_in_batch number_of_workers worker_rank device_arg =
     (let mydevice = (case device_arg of Some d \<Rightarrow> d | None \<Rightarrow> device self);
          start = next_idx self
      in case select_loop self num_samples_in_batch 0 0 start of
           None \<Rightarrow> None
         | Some (Inl e) \<Rightarrow> Some (Inl e, self)
         | Some (Inr (sample_count, num_seq, end_idx)) \<Rightarrow>
             (let self' = self\<lparr>next_idx := end_idx\<rparr>;
                  sweep = (if end_idx > start then False else True)
              in Some (result_loop self' start end_idx num_seq sweep mydevice (datagroup self') [],
                       self')))"

subsection \<open>Observations on results\<close>


text \<open>The records of a batch as flat blocks again, whatever form they were handed over in.\<close>

fun payload_blocks :: "'a batch_payload \<Rightarrow> 'a list list" where
  "payload_blocks (SeqData res_data) = map np_ravel res_data"
| "payload_blocks (RawData data) = data"

text \<open>
  The sequence length of a record of a sequence stream, as \<^verbatim>\<open>sample_count_\<close> and the
  loop of \<^verbatim>\<open>next_minibatch\<close> both compute it.
\<close>

definition seq_len_of :: "'a h5dataset \<Rightarrow> nat list \<Rightarrow> 'a list \<Rightarrow> np_num" where
  "seq_len_of dataset elm_shape seq =
     floor_div (np_prod (record_shape dataset seq)) (np_prod elm_shape)"

subsection \<open>Sample data\<close>

text \<open>
  A small data group in the manner of the example of the class docstring: a dense
  \<^verbatim>\<open>label\<close> stream and a variable-length \<^verbatim>\<open>vlen_seq\<close> stream of elements of shape
  \<open>(2,)\<close>, whose three records hold 2, 1 and 3 elements.
\<close>

definition ex_label :: "int h5dataset" where
  "ex_label = \<lparr>attrs_is_seq = None, attrs_shape = None, attrs_dtype = None,
               ds_vlen = False, ds_shape_tail = [1], ds_dtype = ''f4'', ds_records = [[0], [1], [2]]\<rparr>"

definition ex_vlen :: "int h5dataset" where
  "ex_vlen = \<lparr>attrs_is_seq = Some True, attrs_shape = Some [2], attrs_dtype = Some ''f4'',
              ds_vlen = True, ds_shape_tail = [], ds_dtype = ''O'',
              ds_records = [[10, 11, 12, 13], [20, 21], [30, 31, 32, 33, 34, 35]]\<rparr>"

text \<open>A sequence stream whose \<^verbatim>\<open>dtype\<close> attribute was never set.\<close>

definition ex_no_dtype :: "int h5dataset" where
  "ex_no_dtype = \<lparr>attrs_is_seq = Some True, attrs_shape = Some [2], attrs_dtype = None,
                  ds_vlen = True, ds_shape_tail = [], ds_dtype = ''O'', ds_records = [[1, 2], [3, 4], [5, 6]]\<rparr>"

text \<open>A sequence stream every record of which is shorter than one element.\<close>

definition ex_short :: "int h5dataset" where
  "ex_short = \<lparr>attrs_is_seq = Some True, attrs_shape = Some [2], attrs_dtype = Some ''f4'',
               ds_vlen = True, ds_shape_tail = [], ds_dtype = ''O'', ds_records = [[1], [2]]\<rparr>"

text \<open>A sequence stream with a record of three numbers for elements of shape \<open>(2,)\<close>.\<close>

definition ex_ragged :: "int h5dataset" where
  "ex_ragged = \<lparr>attrs_is_seq = Some True, attrs_shape = Some [2], attrs_dtype = Some ''f4'',
                ds_vlen = True, ds_shape_tail = [], ds_dtype = ''O'', ds_records = [[1, 2, 3]]\<rparr>"


text \<open>
  A sequence stream whose declared element shape has a product beyond 64 bits:
  \<open>4294967297 * 4294967295 = 2^64 - 1\<close>, which is \<open>-1\<close> as a 64-bit integer.
\<close>

definition ex_wide :: "int h5dataset" where
  "ex_wide = \<lparr>attrs_is_seq = Some True, attrs_shape = Some [4294967297, 4294967295],
              attrs_dtype = Some ''f4'', ds_vlen = True, ds_shape_tail = [], ds_dtype = ''O'',
              ds_records = [[1, 2, 3, 4]]\<rparr>"

definition ex_source :: "int H5DataSource" where
  "ex_source =
     \<lparr>device = CPU,
      datagroup = [(''label'', ex_label), (''vlen_seq'', ex_vlen)],
      stream_info_mapping =
        [(''label'', \<lparr>si_name = ''label'', si_stream_id = 0, si_storage_format = ''dense'',
                      si_dtype = ''f4'', si_shape = [1]\<rparr>),
         (''vlen_seq'', \<lparr>si_name = ''vlen_seq'', si_stream_id = 1, si_storage_format = ''dense'',
                         si_dtype = ''f4'', si_shape = [2]\<rparr>)],
      num_data_points = 3,
      next_idx = 0\<rparr>"

definition ex_short_source :: "int H5DataSource" where
  "ex_short_source =
     \<lparr>device = CPU,
      datagroup = [(''short'', ex_short)],
      stream_info_mapping =
        [(''short'', \<lparr>si_name = ''short'', si_stream_id = 0, si_storage_format = ''dense'',
                      si_dtype = ''f4'', si_shape = [2]\<rparr>)],
      num_data_points = 2,
      next_idx = 0\<rparr>"

text \<open>
  The batches the sample source returns: for a request of 4 samples with the cursor at
  record 2 (the selection passes the end of the data), and for a request of 0 samples with
  the cursor at record 0.
\<close>

definition ex_label_info :: stream_information where
  "ex_label_info = \<lparr>si_name = ''label'', si_stream_id = 0, si_storage_format = ''dense'',
                     si_dtype = ''f4'', si_shape = [1]\<rparr>"

definition ex_vlen_info :: stream_information where
  "ex_vlen_info = \<lparr>si_name = ''vlen_seq'', si_stream_id = 1, si_storage_format = ''dense'',
                    si_dtype = ''f4'', si_shape = [2]\<rparr>"

definition ex_wrapped_batch :: "(stream_information \<times> int MinibatchData) list" where
  "ex_wrapped_batch =
     [(ex_label_info,
       \<lparr>md_data = \<lparr>var_shape = [1], payload = RawData [[2], [0]], on_device = CPU\<rparr>,
        num_sequences = 2, num_samples = 2, sweep_end = True\<rparr>),
      (ex_vlen_info,
       \<lparr>md_data =
          \<lparr>var_shape = [2],
           payload =
             SeqData
               [Array [Array [Scalar 30, Scalar 31], Array [Scalar 32, Scalar 33],
                       Array [Scalar 34, Scalar 35]],
                Array [Array [Scalar 10, Scalar 11], Array [Scalar 12, Scalar 13]]],
           on_device = CPU\<rparr>,
        num_sequences = 2, num_samples = 5, sweep_end = True\<rparr>)]"

definition ex_empty_request_batch :: "(stream_information \<times> int MinibatchData) list" where
  "ex_empty_request_batch =
     [(ex_label_info,
       \<lparr>md_data = \<lparr>var_shape = [1], payload = RawData [[0], [1], [2]], on_device = CPU\<rparr>,
        num_sequences = 0, num_samples = 0, sweep_end = True\<rparr>),
      (ex_vlen_info,
       \<lparr>md_data =
          \<lparr>var_shape = [2],
           payload =
             SeqData
               [Array [Array [Scalar 10, Scalar 11], Array [Scalar 12, Scalar 13]],
                Array [Array [Scalar 20, Scalar 21]],
                Array [Array [Scalar 30, Scalar 31], Array [Scalar 32, Scalar 33],
                       Array [Scalar 34, Scalar 35]]],
           on_device = CPU\<rparr>,
        num_sequences = 0, num_samples = 6, sweep_end = True\<rparr>)]"

subsection \<open>What a run of the selection loop has done\<close>

text \<open>
  The loop, started in the state \<open>(sc, ns, e)\<close> with the cursor inside the data, has
  returned \<open>y\<close>: it has added the contributions \<open>cs\<close> of the records \<open>e\<close>, \<open>e + 1\<close>,
  ... (modulo the number of records), it was still short of the request before each of
  them, and it is not short of it at the end.
\<close>

definition walked ::
  "'a H5DataSource \<Rightarrow> int \<Rightarrow> enat \<Rightarrow> nat \<Rightarrow> nat \<Rightarrow> (error + enat \<times> nat \<times> nat) \<Rightarrow> bool" where
  "walked self n sc ns e y =
   (\<forall>sc' ns' e'. y = Inr (sc', ns', e') \<longrightarrow> e < num_data_points self \<longrightarrow>
     (\<exists>cs. ns' = ns + length cs \<and> sc' = sc + sum_list cs \<and>
           e' = (e + length cs) mod num_data_points self \<and>
           (\<forall>j<length cs. max_seq_len_fn self ((e + j) mod num_data_points self) = Inr (cs ! j)) \<and>
           (\<forall>k<length cs. below (sc + sum_list (take k cs)) n) \<and>
           \<not> below sc' n))"

section \<open>Construction\<close>

lemma make_stream_info_error:
  "make_stream_info i name dataset = Inl e \<Longrightarrow>
     e = KeyError ''shape'' \<or> e = KeyError ''dtype''"
  by (auto simp: make_stream_info_def dataset_shape_fn_def split: if_splits option.splits sum.splits)

lemma make_stream_info_missing:
  "is_seq_attr dataset \<Longrightarrow> attrs_shape dataset = None \<or> attrs_dtype dataset = None \<Longrightarrow>
     make_stream_info i name dataset = Inl (KeyError ''shape'') \<or>
     make_stream_info i name dataset = Inl (KeyError ''dtype'')"
  by (auto simp: make_stream_info_def dataset_shape_fn_def split: option.splits)

lemma init_loop_error:
  "init_loop i dg infos ndp = Inl e \<Longrightarrow> e = KeyError ''shape'' \<or> e = KeyError ''dtype''"
proof (induction dg arbitrary: i infos ndp)
  case Nil
  then show ?case by simp
next
  case (Cons p dg)
  obtain name dataset where p: "p = (name, dataset)" by (cases p)
  show ?case
  proof (cases "make_stream_info i name dataset")
    case (Inl e')
    with Cons.prems p have "e = e'" by simp
    with Inl show ?thesis using make_stream_info_error by blast
  next
    case (Inr si)
    with Cons.prems p show ?thesis using Cons.IH by simp
  qed
qed

lemma init_loop_fails:
  "(name, dataset) \<in> set dg \<Longrightarrow> is_seq_attr dataset \<Longrightarrow>
   attrs_shape dataset = None \<or> attrs_dtype dataset = None \<Longrightarrow>
   \<exists>e. init_loop i dg infos ndp = Inl e"
proof (induction dg arbitrary: i infos ndp)
  case Nil
  then show ?case by simp
next
  case (Cons p dg)
  obtain name' dataset' where p: "p = (name', dataset')" by (cases p)
  show ?case
  proof (cases "make_stream_info i name' dataset'")
    case (Inl e')
    with p show ?thesis by simp
  next
    case (Inr si)
    have "(name, dataset) \<noteq> p"
    proof
      assume "(name, dataset) = p"
      with p have "make_stream_info i name' dataset' = make_stream_info i name dataset" by simp
      with Inr make_stream_info_missing[OF Cons.prems(2,3), of i name] show False by auto
    qed
    with Cons.prems(1) have "(name, dataset) \<in> set dg" by simp
    from Cons.IH[OF this Cons.prems(2,3)] Inr p show ?thesis by simp
  qed
qed

text \<open>
  C7. Whenever some array of the data group is declared a sequence (\<^verbatim>\<open>is_seq\<close> true) and
  lacks the \<^verbatim>\<open>shape\<close> or the \<^verbatim>\<open>dtype\<close> attribute, construction fails: \<^verbatim>\<open>__init__\<close>
  raises the \<^verbatim>\<open>KeyError\<close> of the missing attribute (the schema error of the
  specification) while it builds the stream catalogue, so no data source object comes
  into being on which a batch could be requested.
\<close>

theorem init_fails_on_missing_sequence_metadata:
  assumes "(name, dataset) \<in> set dg"
    and "is_seq_attr dataset"
    and "attrs_shape dataset = None \<or> attrs_dtype dataset = None"
  shows "H5DataSource_init dg dev = Inl (KeyError ''shape'') \<or>
         H5DataSource_init dg dev = Inl (KeyError ''dtype'')"
proof -
  from init_loop_fails[OF assms] obtain e where e: "init_loop 0 dg [] None = Inl e" by blast
  from init_loop_error[OF e] e show ?thesis by (auto simp: H5DataSource_init_def)
qed

theorem init_fails_on_missing_sequence_metadata_witness:
  "(''vlen_seq'', ex_no_dtype) \<in> set [(''label'', ex_label), (''vlen_seq'', ex_no_dtype)] \<and>
   is_seq_attr ex_no_dtype \<and> attrs_dtype ex_no_dtype = None \<and>
   H5DataSource_init [(''label'', ex_label), (''vlen_seq'', ex_no_dtype)] CPU
     = Inl (KeyError ''dtype'')"
  using init_fails_on_missing_sequence_metadata
          [of "''vlen_seq''" ex_no_dtype "[(''label'', ex_label), (''vlen_seq'', ex_no_dtype)]" CPU]
  by (simp add: ex_label_def ex_no_dtype_def is_seq_attr_def H5DataSource_init_def
        make_stream_info_def dataset_shape_fn_def)

section \<open>The worker arguments\<close>

text \<open>
  C10. Two calls of \<^verbatim>\<open>next_minibatch\<close> on the same object with the same
  \<^verbatim>\<open>num_samples_in_batch\<close> and device that differ only in \<^verbatim>\<open>number_of_workers\<close> and
  \<^verbatim>\<open>worker_rank\<close> have the same outcome in full: the same result dictionary (record
  range, counts and sweep flags of every stream) or the same exception, and the same
  cursor afterwards; and one returns exactly when the other does.
\<close>

theorem next_minibatch_ignores_workers:
  "next_minibatch self n w1 r1 dev = next_minibatch self n w2 r2 dev"
  by (simp add: next_minibatch_def)

section \<open>Reshaping\<close>

lemma py_slice_run:
  "Suc j * m \<le> length xs \<Longrightarrow> py_slice (j * m) (Suc j * m) xs = take m (drop (j * m) xs)"
  by (simp add: py_slice_def drop_take)

lemma concat_runs:
  "length xs = d * m \<Longrightarrow> concat (map (\<lambda>j. take m (drop (j * m) xs)) [0..<d]) = xs"
proof (induction d arbitrary: xs)
  case 0
  then show ?case by simp
next
  case (Suc d)
  have len: "length (take (d * m) xs) = d * m" using Suc.prems by simp
  have "concat (map (\<lambda>j. take m (drop (j * m) xs)) [0..<d]) =
        concat (map (\<lambda>j. take m (drop (j * m) (take (d * m) xs))) [0..<d])"
  proof -
    have "\<And>j. j < d \<Longrightarrow> take m (drop (j * m) xs) = take m (drop (j * m) (take (d * m) xs))"
    proof -
      fix j assume j: "j < d"
      then have "Suc j \<le> d" by simp
      then have le: "j * m + m \<le> d * m" by (metis mult_Suc mult_le_mono1 add.commute)
      have "take m (drop (j * m) (take (d * m) xs)) = take m (take (d * m - j * m) (drop (j * m) xs))"
        by (simp add: drop_take)
      also have "\<dots> = take m (drop (j * m) xs)" using le by (simp add: min_def)
      finally show "take m (drop (j * m) xs) = take m (drop (j * m) (take (d * m) xs))" by simp
    qed
    then show ?thesis by (auto intro!: arg_cong[where f=concat])
  qed
  also have "\<dots> = take (d * m) xs" using Suc.IH[OF len] .
  finally have a: "concat (map (\<lambda>j. take m (drop (j * m) xs)) [0..<d]) = take (d * m) xs" .
  have b: "take m (drop (d * m) xs) = drop (d * m) xs" using Suc.prems by simp
  show ?case using a b by simp
qed

lemma np_ravel_fill:
  "length xs = prod_list s \<Longrightarrow> np_ravel (np_fill s xs) = xs"
proof (induction s arbitrary: xs)
  case Nil
  then show ?case by (cases xs) auto
next
  case (Cons d ds)
  let ?m = "prod_list ds"
  have len: "length xs = d * ?m" using Cons.prems by simp
  have each: "\<And>j. j < d \<Longrightarrow>
      np_ravel (np_fill ds (py_slice (j * ?m) (Suc j * ?m) xs)) = take ?m (drop (j * ?m) xs)"
  proof -
    fix j assume j: "j < d"
    then have "Suc j \<le> d" by simp
    then have le: "Suc j * ?m \<le> length xs" unfolding len by (rule mult_le_mono1)
    have sl: "py_slice (j * ?m) (Suc j * ?m) xs = take ?m (drop (j * ?m) xs)"
      using le by (rule py_slice_run)
    have "length (take ?m (drop (j * ?m) xs)) = ?m" using le by simp
    then show "np_ravel (np_fill ds (py_slice (j * ?m) (Suc j * ?m) xs)) = take ?m (drop (j * ?m) xs)"
      using Cons.IH sl by simp
  qed
  have "np_ravel (np_fill (d # ds) xs) =
        concat (map (\<lambda>j. np_ravel (np_fill ds (py_slice (j * ?m) (Suc j * ?m) xs))) [0..<d])"
    by (simp add: comp_def)
  also have "\<dots> = concat (map (\<lambda>j. take ?m (drop (j * ?m) xs)) [0..<d])"
    using each by (auto intro!: arg_cong[where f=concat])
  also have "\<dots> = xs" using len by (rule concat_runs)
  finally show ?case .
qed


section \<open>The selection loop\<close>

lemma below_simps [simp]:
  "below (enat k) n = (int k < n)" "below \<infinity> n = False" "below 0 n = (0 < n)"
  by (simp_all add: below_def zero_enat_def)

lemma above_simps [simp]:
  "above (enat k) n = (n < int k)" "above \<infinity> n = True" "above 0 n = (n < 0)"
  by (simp_all add: above_def zero_enat_def)

lemma above_not_below: "above x n \<Longrightarrow> \<not> below x n"
  by (cases x) simp_all

lemma select_loop_stop:
  "\<not> below sc n \<Longrightarrow> select_loop self n sc ns e = Some (Inr (sc, ns, e))"
  by (subst select_loop.simps) simp

lemma select_loop_step:
  "below sc n \<Longrightarrow> max_seq_len_fn self e = Inr m \<Longrightarrow> num_data_points self \<noteq> 0 \<Longrightarrow>
   select_loop self n sc ns e =
     (if above (sc + m) n then Some (Inr (sc + m, ns + 1, (e + 1) mod num_data_points self))
      else select_loop self n (sc + m) (ns + 1) ((e + 1) mod num_data_points self))"
  by (subst select_loop.simps) (simp add: Let_def)

lemma select_loop_error:
  "below sc n \<Longrightarrow> max_seq_len_fn self e = Inl err \<Longrightarrow>
   select_loop self n sc ns e = Some (Inl err)"
  by (subst select_loop.simps) simp

lemma select_loop_zero_div:
  "below sc n \<Longrightarrow> max_seq_len_fn self e = Inr m \<Longrightarrow> num_data_points self = 0 \<Longrightarrow>
   select_loop self n sc ns e = Some (Inl ZeroDivisionError)"
  by (subst select_loop.simps) (simp add: Let_def)

lemma select_loop_walk:
  assumes "select_loop self n sc ns e = Some y"
  shows "walked self n sc ns e y"
proof (rule select_loop.raw_induct[where P = walked, OF _ assms])
  fix loop :: "'a H5DataSource \<Rightarrow> int \<Rightarrow> enat \<Rightarrow> nat \<Rightarrow> nat \<Rightarrow> (error + enat \<times> nat \<times> nat) option"
  fix self :: "'a H5DataSource" and n sc ns e y
  assume IH: "\<And>self n sc ns e y. loop self n sc ns e = Some y \<Longrightarrow> walked self n sc ns e y"
  assume body: "(if below sc n
      then case max_seq_len_fn self e of Inl e \<Rightarrow> Some (Inl e)
           | Inr max_seq_len \<Rightarrow>
               let sample_count' = sc + max_seq_len;
                   num_seq' = ns + 1
               in if num_data_points self = 0
                  then Some (Inl ZeroDivisionError)
                  else let end_idx' = (e + 1) mod num_data_points self
                       in if above sample_count' n
                          then Some (Inr (sample_count', num_seq', end_idx'))
                          else loop self n sample_count' num_seq' end_idx'
      else Some (Inr (sc, ns, e))) = Some y"
  show "walked self n sc ns e y"
    unfolding walked_def
  proof (intro allI impI)
    let ?N = "num_data_points self"
    fix sc' ns' e'
    assume y: "y = Inr (sc', ns', e')" and e: "e < ?N"
    show "\<exists>cs. ns' = ns + length cs \<and> sc' = sc + sum_list cs \<and>
           e' = (e + length cs) mod ?N \<and>
           (\<forall>j<length cs. max_seq_len_fn self ((e + j) mod ?N) = Inr (cs ! j)) \<and>
           (\<forall>k<length cs. below (sc + sum_list (take k cs)) n) \<and>
           \<not> below sc' n"
    proof (cases "below sc n")
      case False
      with body y have "sc' = sc" "ns' = ns" "e' = e" by simp_all
      with False e show ?thesis by (intro exI[of _ "[]"]) simp
    next
      case True
      note lt = this
      show ?thesis
      proof (cases "max_seq_len_fn self e")
        case (Inl err)
        with body lt y show ?thesis by simp
      next
        case (Inr m)
        have N: "?N \<noteq> 0" using e by simp
        let ?e1 = "(e + 1) mod ?N"
        show ?thesis
        proof (cases "above (sc + m) n")
          case True
          with body lt Inr N y have "sc' = sc + m" "ns' = ns + 1" "e' = ?e1"
            by (simp_all add: Let_def)
          with True lt Inr e show ?thesis
            by (intro exI[of _ "[m]"]) (simp add: above_not_below)
        next
          case False
          with body lt Inr N have rec: "loop self n (sc + m) (ns + 1) ?e1 = Some y"
            by (simp add: Let_def)
          have e1: "?e1 < ?N" using N by simp
          from IH[OF rec] y e1 obtain cs :: "enat list" where
            cs: "ns' = ns + 1 + length cs" "sc' = sc + m + sum_list cs"
                "e' = (?e1 + length cs) mod ?N"
                "\<forall>j<length cs. max_seq_len_fn self ((?e1 + j) mod ?N) = Inr (cs ! j)"
                "\<forall>k<length cs. below (sc + m + sum_list (take k cs)) n"
                "\<not> below sc' n"
            unfolding walked_def by blast
          have shift: "\<And>j. (?e1 + j) mod ?N = (e + Suc j) mod ?N"
            by (simp add: mod_add_left_eq)
          show ?thesis
          proof (intro exI[of _ "m # cs"] conjI allI impI)
            show "ns' = ns + length (m # cs)" using cs(1) by simp
            show "sc' = sc + sum_list (m # cs)" using cs(2) by (simp add: add.assoc)
            show "e' = (e + length (m # cs)) mod ?N" unfolding cs(3) shift by simp
            show "\<not> below sc' n" using cs(6) .
          next
            fix j assume j: "j < length (m # cs)"
            show "max_seq_len_fn self ((e + j) mod ?N) = Inr ((m # cs) ! j)"
            proof (cases j)
              case 0
              with Inr e show ?thesis by simp
            next
              case (Suc j')
              with j have "j' < length cs" by simp
              with cs(4) have "max_seq_len_fn self ((?e1 + j') mod ?N) = Inr (cs ! j')" by blast
              then show ?thesis unfolding shift Suc by simp
            qed
          next
            fix k assume k: "k < length (m # cs)"
            show "below (sc + sum_list (take k (m # cs))) n"
            proof (cases k)
              case 0
              with lt show ?thesis by simp
            next
              case (Suc k')
              with k have "k' < length cs" by simp
              with cs(5) have "below (sc + m + sum_list (take k' cs)) n" by blast
              then show ?thesis unfolding Suc by (simp add: add.assoc)
            qed
          qed
        qed
      qed
    qed
  qed
qed

lemma select_loop_returns:
  assumes pos: "\<forall>i<num_data_points self. \<exists>m\<ge>1. max_seq_len_fn self i = Inr m"
  shows "e < num_data_points self \<Longrightarrow> \<exists>r. select_loop self n sc ns e = Some (Inr r)"
proof (induction "case sc of enat k \<Rightarrow> nat (n - int k) | \<infinity> \<Rightarrow> 0" arbitrary: sc ns e rule: less_induct)
  case less
  let ?N = "num_data_points self"
  show ?case
  proof (cases "below sc n")
    case False
    then show ?thesis by (simp add: select_loop_stop)
  next
    case True
    then obtain k where k: "sc = enat k" "int k < n" by (cases sc) simp_all
    from pos less.prems obtain m where m: "1 \<le> m" "max_seq_len_fn self e = Inr m" by blast
    have N: "?N \<noteq> 0" using less.prems by simp
    note step = select_loop_step[OF True m(2) N, of ns]
    show ?thesis
    proof (cases "above (sc + m) n")
      case True
      with step show ?thesis by simp
    next
      case False
      then obtain j where j: "m = enat j" using k by (cases m) simp_all
      from m(1) j have j1: "1 \<le> j" by (simp add: one_enat_def)
      have sum: "sc + m = enat (k + j)" using k j by simp
      have dec: "(case sc + m of enat k \<Rightarrow> nat (n - int k) | \<infinity> \<Rightarrow> 0)
                 < (case sc of enat k \<Rightarrow> nat (n - int k) | \<infinity> \<Rightarrow> 0)"
        using k(2) j1 by (simp add: k(1) j)
      have e1: "(e + 1) mod ?N < ?N" using N by simp
      from less.hyps[OF dec e1, of "ns + 1"] step False show ?thesis by simp
    qed
  qed
qed

lemma select_loop_stuck:
  assumes "select_loop self n sc ns e = Some y"
  shows "\<not> (sc = 0 \<and> 0 < n \<and> e < num_data_points self \<and>
            (\<forall>i<num_data_points self. max_seq_len_fn self i = Inr 0))"
proof (rule select_loop.raw_induct[where
    P = "\<lambda>self n sc ns e y. \<not> (sc = 0 \<and> 0 < n \<and> e < num_data_points self \<and>
            (\<forall>i<num_data_points self. max_seq_len_fn self i = Inr 0))", OF _ assms])
  fix loop :: "'a H5DataSource \<Rightarrow> int \<Rightarrow> enat \<Rightarrow> nat \<Rightarrow> nat \<Rightarrow> (error + enat \<times> nat \<times> nat) option"
  fix self :: "'a H5DataSource" and n sc ns e y
  assume IH: "\<And>self n sc ns e y. loop self n sc ns e = Some y \<Longrightarrow>
     \<not> (sc = 0 \<and> 0 < n \<and> e < num_data_points self \<and>
            (\<forall>i<num_data_points self. max_seq_len_fn self i = Inr 0))"
  assume body: "(if below sc n
      then case max_seq_len_fn self e of Inl e \<Rightarrow> Some (Inl e)
           | Inr max_seq_len \<Rightarrow>
               let sample_count' = sc + max_seq_len;
                   num_seq' = ns + 1
               in if num_data_points self = 0
                  then Some (Inl ZeroDivisionError)
                  else let end_idx' = (e + 1) mod num_data_points self
                       in if above sample_count' n
                          then Some (Inr (sample_count', num_seq', end_idx'))
                          else loop self n sample_count' num_seq' end_idx'
      else Some (Inr (sc, ns, e))) = Some y"
  let ?N = "num_data_points self"
  show "\<not> (sc = 0 \<and> 0 < n \<and> e < ?N \<and> (\<forall>i<?N. max_seq_len_fn self i = Inr 0))"
  proof
    assume stuck: "sc = 0 \<and> 0 < n \<and> e < ?N \<and> (\<forall>i<?N. max_seq_len_fn self i = Inr 0)"
    then have m: "max_seq_len_fn self e = Inr 0" and N: "?N \<noteq> 0" and lt: "below sc n"
      by auto
    from stuck have nle: "\<not> above (sc + 0) n" by simp
    from body lt m N nle have rec: "loop self n (sc + 0) (ns + 1) ((e + 1) mod ?N) = Some y"
      by (simp add: Let_def)
    have e1: "(e + 1) mod ?N < ?N" using N by simp
    from IH[OF rec] stuck e1 show False by simp
  qed
qed

lemma select_loop_never_returns:
  assumes "0 < n" "e < num_data_points self"
    and "\<forall>i<num_data_points self. max_seq_len_fn self i = Inr 0"
  shows "select_loop self n 0 ns e = None"
proof (cases "select_loop self n 0 ns e")
  case None
  then show ?thesis .
next
  case (Some y)
  from select_loop_stuck[OF Some] assms show ?thesis by simp
qed

section \<open>The sample data evaluated\<close>

lemma ex_contrib:
  "max_seq_len_fn ex_source 0 = Inr 2"
  "max_seq_len_fn ex_source 1 = Inr 1"
  "max_seq_len_fn ex_source 2 = Inr 3"
  by code_simp+

lemma ex_short_contrib:
  "max_seq_len_fn ex_short_source 0 = Inr 0"
  "max_seq_len_fn ex_short_source 1 = Inr 0"
  by code_simp+

lemma ex_N: "num_data_points ex_source = 3" "next_idx ex_source = 0"
  by (simp_all add: ex_source_def)

lemma ex_run_3: "select_loop ex_source 3 0 0 0 = Some (Inr (3, 2, 2))"
  by code_simp

section \<open>64-bit integers\<close>

lemma int64_id: "- (2 ^ 63) \<le> x \<Longrightarrow> x < 2 ^ 63 \<Longrightarrow> int64 x = x"
  by (simp add: int64_def)

lemma int64_mod: "int64 x mod 2 ^ 64 = x mod 2 ^ 64"
proof -
  have "int64 x mod 2 ^ 64 = ((x + 2 ^ 63) mod 2 ^ 64 - 2 ^ 63) mod 2 ^ 64"
    by (simp only: int64_def)
  also have "\<dots> = (x + 2 ^ 63 - 2 ^ 63) mod 2 ^ 64"
    by (rule mod_diff_left_eq)
  finally show ?thesis by simp
qed

lemma int64_cong: "x mod 2 ^ 64 = y mod 2 ^ 64 \<Longrightarrow> int64 x = int64 y"
proof -
  assume a: "x mod 2 ^ 64 = y mod 2 ^ 64"
  have "(x + 2 ^ 63) mod 2 ^ 64 = (y + 2 ^ 63) mod 2 ^ 64"
    using a by (rule mod_add_cong) simp
  then show ?thesis by (simp only: int64_def)
qed

lemma int64_mult_left: "int64 (int64 a * b) = int64 (a * b)"
proof (rule int64_cong)
  show "int64 a * b mod 2 ^ 64 = a * b mod 2 ^ 64"
    using int64_mod[of a] by (rule mod_mult_cong) simp
qed

lemma fold_int64: "fold (\<lambda>d acc. int64 (acc * int d)) dims s = int64 (s * int (prod_list dims))"
  if "dims \<noteq> [] \<or> int64 s = s"
  using that
proof (induction dims arbitrary: s)
  case Nil
  then show ?case by simp
next
  case (Cons d dims)
  have idem: "int64 (int64 (s * int d)) = int64 (s * int d)"
    using int64_mult_left[of "s * int d" 1] by simp
  have "fold (\<lambda>d acc. int64 (acc * int d)) dims (int64 (s * int d))
        = int64 (int64 (s * int d) * int (prod_list dims))"
    using Cons.IH[of "int64 (s * int d)"] idem by simp
  also have "\<dots> = int64 (s * int d * int (prod_list dims))"
    by (rule int64_mult_left)
  finally show ?case by (simp add: mult.assoc)
qed

lemma np_prod_nonempty: "dims \<noteq> [] \<Longrightarrow> np_prod dims = IntSize (int64 (int (prod_list dims)))"
  using fold_int64[of dims 1] by (simp add: np_prod_def)

lemma np_prod_small:
  "dims \<noteq> [] \<Longrightarrow> prod_list dims < 2 ^ 63 \<Longrightarrow> np_prod dims = IntSize (int (prod_list dims))"
proof -
  assume d: "dims \<noteq> []" and small: "prod_list dims < 2 ^ 63"
  have "int (prod_list dims) < 2 ^ 63" using small by (metis of_nat_less_iff of_nat_numeral of_nat_power)
  then have "int64 (int (prod_list dims)) = int (prod_list dims)" by (intro int64_id) simp_all
  with np_prod_nonempty[OF d] show ?thesis by simp
qed

lemma int64_nat: "n < 2 ^ 63 \<Longrightarrow> int64 (int n) = int n"
proof -
  assume "n < 2 ^ 63"
  then have "int n < 2 ^ 63" by (metis of_nat_less_iff of_nat_numeral of_nat_power)
  then show ?thesis by (intro int64_id) simp_all
qed

section \<open>The reshape of numpy\<close>

lemma mul_sizes_known:
  "mul_sizes (map int shp) s = Some t \<Longrightarrow> t = s * int (prod_list shp)"
proof (induction shp arbitrary: s)
  case Nil
  then show ?case by simp
next
  case (Cons d shp)
  from Cons.prems have "mul_sizes (map int shp) (s * int d) = Some t"
    by (simp split: if_splits)
  from Cons.IH[OF this] show ?case by (simp add: mult.assoc)
qed

lemma mul_sizes_fits:
  "0 \<le> s \<Longrightarrow> s * int (prod_list shp) \<le> 2 ^ 63 - 1 \<Longrightarrow> s = 0 \<or> 0 < prod_list shp \<Longrightarrow>
   mul_sizes (map int shp) s = Some (s * int (prod_list shp))"
proof (induction shp arbitrary: s)
  case Nil
  then show ?case by simp
next
  case (Cons d shp)
  have nonneg: "0 \<le> s * int d" using Cons.prems(1) by simp
  have fits: "s * int d \<le> 2 ^ 63 - 1"
  proof (cases "s = 0")
    case True
    then show ?thesis by simp
  next
    case False
    with Cons.prems(3) have "0 < prod_list (d # shp)" by simp
    then have "1 \<le> int (prod_list shp)" by (cases "prod_list shp") simp_all
    then have "s * int d * 1 \<le> s * int d * int (prod_list shp)"
      using nonneg by (intro mult_left_mono) simp_all
    also have "\<dots> = s * int (prod_list (d # shp))" by (simp add: mult.assoc)
    finally show ?thesis using Cons.prems(2) by simp
  qed
  have rest: "s * int d * int (prod_list shp) \<le> 2 ^ 63 - 1"
    using Cons.prems(2) by (simp add: mult.assoc)
  have zero: "s * int d = 0 \<or> 0 < prod_list shp"
    using Cons.prems(3) by auto
  from Cons.IH[OF nonneg rest zero] fits show ?case by (simp add: mult.assoc)
qed

lemma no_negative_extent:
  "filter (\<lambda>d. d < 0) (map int shp) = []" "\<not> list_ex (\<lambda>d. d < 0) (map int shp)"
  by (simp_all add: filter_empty_conv list_ex_iff)

lemma nat_int_map:
  "map (\<lambda>d. nat (if d < 0 then q else d)) (map int shp) = shp"
  "map ((\<lambda>d. nat (if d < 0 then q else d)) \<circ> int) shp = shp"
  by (induction shp) simp_all

lemma np_reshape_error: "np_reshape a dshape = Inl e \<Longrightarrow> e = ValueError"
  by (auto simp: np_reshape_def split: if_splits option.splits)

lemma np_reshape_first_extent:
  assumes "np_reshape a (l # map int shp) = Inr r"
  shows "\<exists>d0. r = np_fill (d0 # shp) a \<and> d0 * prod_list shp = length a \<and> (0 \<le> l \<longrightarrow> int d0 = l)"
proof (cases "l < 0")
  case True
  from assms True obtain s where
    s: "mul_sizes (map int shp) 1 = Some s"
    and ok: "s \<noteq> 0" "int (length a) mod s = 0"
    and r: "r = np_fill (map (\<lambda>d. nat (if d < 0 then int (length a) div s else d)) (l # map int shp)) a"
    by (auto simp: np_reshape_def no_negative_extent split: if_splits option.splits)
  from mul_sizes_known[OF s] have sv: "s = int (prod_list shp)" by simp
  let ?d0 = "length a div prod_list shp"
  have "map (\<lambda>d. nat (if d < 0 then int (length a) div s else d)) (l # map int shp) = ?d0 # shp"
    using True by (simp add: nat_int_map sv zdiv_int[symmetric])
  with r have r': "r = np_fill (?d0 # shp) a" by (simp only:)
  from ok sv have "length a mod prod_list shp = 0"
    by (metis of_nat_0 of_nat_eq_iff zmod_int)
  then have "?d0 * prod_list shp = length a" by auto
  with r' True show ?thesis by (intro exI[of _ ?d0]) simp
next
  case False
  from assms False obtain s where
    s: "mul_sizes (map int shp) l = Some s" and eq: "int (length a) = s"
    and r: "r = np_fill (map nat (l # map int shp)) a"
    by (auto simp: np_reshape_def no_negative_extent split: if_splits option.splits)
  from mul_sizes_known[OF s] eq have len: "int (length a) = l * int (prod_list shp)" by simp
  have "map nat (l # map int shp) = nat l # shp" by (simp add: comp_def)
  with r have r': "r = np_fill (nat l # shp) a" by (simp only:)
  from len False have "nat l * prod_list shp = length a"
    by (metis nat_int nat_mult_distrib not_less of_nat_0_le_iff nat_int)
  with r' False show ?thesis by (intro exI[of _ "nat l"]) simp
qed

lemma np_reshape_exact:
  assumes "length a = k * prod_list shp" and "k = 0 \<or> 0 < prod_list shp"
    and "length a < 2 ^ 63"
  shows "np_reshape a (int k # map int shp) = Inr (np_fill (k # shp) a)"
proof -
  have bound: "int k * int (prod_list shp) \<le> 2 ^ 63 - 1"
  proof -
    have "int (length a) < 2 ^ 63" using assms(3)
      by (metis of_nat_less_iff of_nat_numeral of_nat_power)
    then show ?thesis using assms(1) by simp
  qed
  have k: "int k \<le> 2 ^ 63 - 1"
  proof (cases "k = 0")
    case True
    then show ?thesis by simp
  next
    case False
    with assms(2) have "1 \<le> int (prod_list shp)" by (cases "prod_list shp") simp_all
    then have "int k * 1 \<le> int k * int (prod_list shp)" by (intro mult_left_mono) simp_all
    with bound show ?thesis by simp
  qed
  have z: "int k = 0 \<or> 0 < prod_list shp" using assms(2) by simp
  have ms: "mul_sizes (map int shp) (int k) = Some (int k * int (prod_list shp))"
    by (rule mul_sizes_fits[OF _ bound z]) simp
  have len: "int (length a) = int k * int (prod_list shp)" using assms(1) by simp
  have dims: "map nat (int k # map int shp) = k # shp" by (simp add: comp_def)
  have "np_reshape a (int k # map int shp) = Inr (np_fill (map nat (int k # map int shp)) a)"
    using ms k len by (simp add: np_reshape_def no_negative_extent del: np_fill.simps list.map)
  then show ?thesis by (simp only: dims)
qed

section \<open>Assembling the result\<close>

lemma reshape_loop_result:
  "reshape_loop ds shp esz data acc sc = Inr (res, sc') \<Longrightarrow>
     \<exists>arrs lens. res = acc @ arrs \<and> map np_ravel arrs = data \<and>
        map IntNum lens = map (\<lambda>seq. floor_div (np_prod (record_shape ds seq)) esz) data \<and>
        sc' = (if data = [] then sc else int64 (sc + sum_list lens)) \<and>
        (\<forall>seq\<in>set data. length seq mod prod_list shp = 0)"
proof (induction data arbitrary: acc sc)
  case Nil
  then show ?case by simp
next
  case (Cons seq rest)
  let ?len = "floor_div (np_prod (record_shape ds seq)) esz"
  from Cons.prems obtain l r where
    l: "?len = IntNum l"
    and r: "np_reshape seq (l # map int shp) = Inr r"
    and rest: "reshape_loop ds shp esz rest (acc @ [r]) (int64 (sc + l)) = Inr (res, sc')"
    by (auto simp: Let_def split: np_num.splits sum.splits)
  from np_reshape_first_extent[OF r] obtain d0 where
    d0: "r = np_fill (d0 # shp) seq" "d0 * prod_list shp = length seq" by blast
  have rv: "np_ravel r = seq" unfolding d0(1) by (rule np_ravel_fill) (simp add: d0(2))
  have dv: "length seq mod prod_list shp = 0" using d0(2) by (metis mod_mult_self2_is_0)
  from Cons.IH[OF rest] obtain arrs lens where
    a: "res = (acc @ [r]) @ arrs" "map np_ravel arrs = rest"
       "map IntNum lens = map (\<lambda>seq. floor_div (np_prod (record_shape ds seq)) esz) rest"
       "sc' = (if rest = [] then int64 (sc + l) else int64 (int64 (sc + l) + sum_list lens))"
       "\<forall>seq\<in>set rest. length seq mod prod_list shp = 0"
    by blast
  show ?case
  proof (intro exI[of _ "r # arrs"] exI[of _ "l # lens"] conjI)
    show "res = acc @ r # arrs" using a(1) by simp
    show "map np_ravel (r # arrs) = seq # rest" using a(2) rv by simp
    show "map IntNum (l # lens) =
          map (\<lambda>seq. floor_div (np_prod (record_shape ds seq)) esz) (seq # rest)"
      using a(3) l by simp
    show "sc' = (if seq # rest = [] then sc else int64 (sc + sum_list (l # lens)))"
    proof (cases "rest = []")
      case True
      with a(3,4) show ?thesis by simp
    next
      case False
      have "int64 (int64 (sc + l) + sum_list lens) = int64 (sc + l + sum_list lens)"
      proof (rule int64_cong)
        show "(int64 (sc + l) + sum_list lens) mod 2 ^ 64 = (sc + l + sum_list lens) mod 2 ^ 64"
          using int64_mod[of "sc + l"] by (rule mod_add_cong) simp
      qed
      with a(4) False show ?thesis by (simp add: add.assoc)
    qed
    show "\<forall>seq\<in>set (seq # rest). length seq mod prod_list shp = 0" using a(5) dv by simp
  qed
qed

lemma reshape_loop_fails:
  assumes "seq \<in> set data" and "length seq mod prod_list shp \<noteq> 0"
  shows "\<exists>err. reshape_loop ds shp esz data acc sc = Inl err"
proof (cases "reshape_loop ds shp esz data acc sc")
  case (Inl err)
  then show ?thesis by blast
next
  case (Inr p)
  obtain res sc' where "p = (res, sc')" by (cases p)
  with Inr reshape_loop_result[of ds shp esz data acc sc res sc'] assms show ?thesis by auto
qed

lemma reshape_loop_error:
  "reshape_loop ds shp esz data acc sc = Inl err \<Longrightarrow> err = ValueError \<or> err = TypeError"
proof (induction data arbitrary: acc sc)
  case Nil
  then show ?case by simp
next
  case (Cons seq rest)
  show ?case
  proof (cases "floor_div (np_prod (record_shape ds seq)) esz")
    case (IntNum l)
    show ?thesis
    proof (cases "np_reshape seq (l # map int shp)")
      case (Inl e)
      with Cons.prems IntNum np_reshape_error[OF Inl] show ?thesis by (simp add: Let_def)
    next
      case (Inr r)
      with Cons.prems IntNum Cons.IH show ?thesis by (simp add: Let_def)
    qed
  next
    case (FloatNum x)
    with Cons.prems show ?thesis by (simp add: Let_def)
  next
    case FloatInf
    with Cons.prems show ?thesis by (simp add: Let_def)
  qed
qed

lemma reshape_loop_value_error:
  assumes "reshape_loop ds shp (np_prod shp) data acc sc = Inl err"
    and "shp \<noteq> []" and "ds_vlen ds \<or> ds_shape_tail ds \<noteq> []"
  shows "err = ValueError"
  using assms(1)
proof (induction data arbitrary: acc sc)
  case Nil
  then show ?case by simp
next
  case (Cons seq rest)
  have rs: "record_shape ds seq \<noteq> []" using assms(3) by (auto simp: record_shape_def)
  obtain a b where ab: "np_prod (record_shape ds seq) = IntSize a" "np_prod shp = IntSize b"
    using rs assms(2) by (simp add: np_prod_def)
  let ?l = "if b = 0 then 0 else int64 (a div b)"
  have fd: "floor_div (np_prod (record_shape ds seq)) (np_prod shp) = IntNum ?l"
    unfolding ab by simp
  show ?case
  proof (cases "np_reshape seq (?l # map int shp)")
    case (Inl e)
    with Cons.prems fd np_reshape_error[OF Inl] show ?thesis by (simp add: Let_def)
  next
    case (Inr r)
    with Cons.prems fd Cons.IH show ?thesis by (simp add: Let_def)
  qed
qed

lemma batch_of_stream_result:
  assumes "batch_of_stream self start e k sweep dev (name, ds) = Inr (si, md)"
  shows "num_sequences md = k" "sweep_end md = sweep" "on_device (md_data md) = dev"
    "payload_blocks (payload (md_data md)) = extract_data self ds start e sweep"
    "is_seq_attr ds \<Longrightarrow> \<exists>elm_shape lens. attrs_shape ds = Some elm_shape \<and>
       map IntNum lens = map (seq_len_of ds elm_shape) (extract_data self ds start e sweep) \<and>
       num_samples md = int64 (sum_list lens)"
    "\<not> is_seq_attr ds \<Longrightarrow> num_samples md = int k"
proof -
  from assms obtain si' where si: "lookup_stream_info self name = Inr si'"
    by (auto simp: batch_of_stream_def split: sum.splits)
  let ?data = "extract_data self ds start e sweep"
  show "num_sequences md = k" "sweep_end md = sweep" "on_device (md_data md) = dev"
    using assms si
    by (auto simp: batch_of_stream_def Let_def split: if_splits option.splits sum.splits)
  show "\<not> is_seq_attr ds \<Longrightarrow> num_samples md = int k"
    using assms si by (auto simp: batch_of_stream_def Let_def)
  show "payload_blocks (payload (md_data md)) = ?data"
  proof (cases "is_seq_attr ds")
    case False
    with assms si show ?thesis by (auto simp: batch_of_stream_def Let_def)
  next
    case True
    with assms si obtain shp res sc where
      shp: "attrs_shape ds = Some shp"
      and rl: "reshape_loop ds shp (np_prod shp) ?data [] 0 = Inr (res, sc)"
      and md: "payload (md_data md) = SeqData res"
      by (auto simp: batch_of_stream_def Let_def split: option.splits sum.splits)
    from reshape_loop_result[OF rl] have "map np_ravel res = ?data" by auto
    with md show ?thesis by simp
  qed
  show "is_seq_attr ds \<Longrightarrow> \<exists>elm_shape lens. attrs_shape ds = Some elm_shape \<and>
       map IntNum lens = map (seq_len_of ds elm_shape) ?data \<and>
       num_samples md = int64 (sum_list lens)"
  proof -
    assume True: "is_seq_attr ds"
    with assms si obtain shp res sc where
      shp: "attrs_shape ds = Some shp"
      and rl: "reshape_loop ds shp (np_prod shp) ?data [] 0 = Inr (res, sc)"
      and md: "num_samples md = sc"
      by (auto simp: batch_of_stream_def Let_def split: option.splits sum.splits)
    from reshape_loop_result[OF rl] obtain lens where
      "map IntNum lens = map (\<lambda>seq. floor_div (np_prod (record_shape ds seq)) (np_prod shp)) ?data"
      "sc = (if ?data = [] then 0 else int64 (0 + sum_list lens))"
      by blast
    then have "map IntNum lens = map (seq_len_of ds shp) ?data \<and>
        num_samples md = int64 (sum_list lens)"
      using md by (auto simp add: seq_len_of_def[abs_def] int64_def)
    with shp show ?thesis by blast
  qed
qed

lemma result_loop_result:
  "result_loop self s e k sw dev dg acc = Inr result \<Longrightarrow>
   length result = length acc + length dg \<and> take (length acc) result = acc \<and>
   (\<forall>i<length dg. batch_of_stream self s e k sw dev (dg ! i) = Inr (result ! (length acc + i)))"
proof (induction dg arbitrary: acc)
  case Nil
  then show ?case by simp
next
  case (Cons entry rest)
  from Cons.prems obtain kv where
    kv: "batch_of_stream self s e k sw dev entry = Inr kv"
    and rest: "result_loop self s e k sw dev rest (acc @ [kv]) = Inr result"
    by (auto split: sum.splits)
  from Cons.IH[OF rest] have
    len: "length result = length acc + 1 + length rest"
    and tk: "take (length acc + 1) result = acc @ [kv]"
    and each: "\<forall>i<length rest. batch_of_stream self s e k sw dev (rest ! i) = Inr (result ! (length acc + 1 + i))"
    by simp_all
  from tk have tk': "take (length acc) result = acc"
    by (metis append_eq_conv_conj length_append_singleton take_take min.absorb1 le_add1 Suc_eq_plus1 take_all_iff order_refl butlast_snoc butlast_take diff_add_inverse2 len)
  from tk len have at: "result ! length acc = kv"
    by (metis nth_take nth_append_length less_add_one)
  show ?case
  proof (intro conjI allI impI)
    show "length result = length acc + length (entry # rest)" using len by simp
    show "take (length acc) result = acc" by (rule tk')
  next
    fix i assume i: "i < length (entry # rest)"
    show "batch_of_stream self s e k sw dev ((entry # rest) ! i) = Inr (result ! (length acc + i))"
    proof (cases i)
      case 0
      with kv at show ?thesis by simp
    next
      case (Suc i')
      with i each show ?thesis by simp
    qed
  qed
qed

section \<open>The entry point unfolded\<close>

lemma batch_of_stream_cursor:
  "batch_of_stream (self\<lparr>next_idx := c\<rparr>) s e k sw dev entry = batch_of_stream self s e k sw dev entry"
proof -
  have x: "\<And>ds. extract_data (self\<lparr>next_idx := c\<rparr>) ds s e sw = extract_data self ds s e sw"
    by (simp add: extract_data_def)
  have l: "\<And>name. lookup_stream_info (self\<lparr>next_idx := c\<rparr>) name = lookup_stream_info self name"
    by (simp add: lookup_stream_info_def)
  show ?thesis unfolding batch_of_stream_def x l ..
qed

lemma next_minibatch_unfold:
  assumes "next_minibatch self n w r dev = Some (out, self')"
  shows "(\<exists>err. select_loop self n 0 0 (next_idx self) = Some (Inl err) \<and> out = Inl err \<and> self' = self) \<or>
         (\<exists>sc k. select_loop self n 0 0 (next_idx self) = Some (Inr (sc, k, next_idx self')) \<and>
            self' = self\<lparr>next_idx := next_idx self'\<rparr> \<and>
            out = result_loop self' (next_idx self) (next_idx self') k
                    (next_idx self' \<le> next_idx self)
                    (case dev of Some d \<Rightarrow> d | None \<Rightarrow> device self) (datagroup self) [])"
proof (cases "select_loop self n 0 0 (next_idx self)")
  case None
  with assms show ?thesis by (simp add: next_minibatch_def)
next
  case (Some y)
  show ?thesis
  proof (cases y)
    case (Inl err)
    with Some assms show ?thesis by (simp add: next_minibatch_def)
  next
    case (Inr t)
    obtain sc k e where t: "t = (sc, k, e)" by (cases t)
    have sw: "\<And>a b. (if a < b then False else True) = (b \<le> (a::nat))" by auto
    from assms Some Inr t have
      pair: "(result_loop (self\<lparr>next_idx := e\<rparr>) (next_idx self) e k
                    (e \<le> next_idx self)
                    (case dev of Some d \<Rightarrow> d | None \<Rightarrow> device self) (datagroup self) [],
              self\<lparr>next_idx := e\<rparr>) = (out, self')"
      by (auto simp add: next_minibatch_def Let_def sw)
    then have s': "self' = self\<lparr>next_idx := e\<rparr>"
      and out: "out = result_loop (self\<lparr>next_idx := e\<rparr>) (next_idx self) e k
                    (e \<le> next_idx self)
                    (case dev of Some d \<Rightarrow> d | None \<Rightarrow> device self) (datagroup self) []"
      by auto
    from s' have e: "next_idx self' = e" by simp
    have "select_loop self n 0 0 (next_idx self) = Some (Inr (sc, k, next_idx self')) \<and>
            self' = self\<lparr>next_idx := next_idx self'\<rparr> \<and>
            out = result_loop self' (next_idx self) (next_idx self') k
                    (next_idx self' \<le> next_idx self)
                    (case dev of Some d \<Rightarrow> d | None \<Rightarrow> device self) (datagroup self) []"
      unfolding e using Some Inr t s' out by simp
    then show ?thesis by blast
  qed
qed

lemma next_minibatch_streams:
  assumes call: "next_minibatch self n w r dev = Some (Inr result, self')"
  shows "\<exists>sc k. select_loop self n 0 0 (next_idx self) = Some (Inr (sc, k, next_idx self')) \<and>
           length result = length (datagroup self) \<and>
           (\<forall>i<length (datagroup self).
              batch_of_stream self (next_idx self) (next_idx self') k
                 (next_idx self' \<le> next_idx self)
                 (case dev of Some d \<Rightarrow> d | None \<Rightarrow> device self) (datagroup self ! i)
              = Inr (result ! i))"
proof -
  from next_minibatch_unfold[OF call] obtain sc k where
    loop: "select_loop self n 0 0 (next_idx self) = Some (Inr (sc, k, next_idx self'))"
    and s': "self' = self\<lparr>next_idx := next_idx self'\<rparr>"
    and out: "Inr result = result_loop self' (next_idx self) (next_idx self') k
                    (next_idx self' \<le> next_idx self)
                    (case dev of Some d \<Rightarrow> d | None \<Rightarrow> device self) (datagroup self) []"
    by auto
  from result_loop_result[OF out[symmetric]] have
    len: "length result = length (datagroup self)"
    and each: "\<forall>i<length (datagroup self).
        batch_of_stream self' (next_idx self) (next_idx self') k (next_idx self' \<le> next_idx self)
          (case dev of Some d \<Rightarrow> d | None \<Rightarrow> device self) (datagroup self ! i) = Inr (result ! i)"
    by simp_all
  have "\<And>entry. batch_of_stream self' (next_idx self) (next_idx self') k (next_idx self' \<le> next_idx self)
          (case dev of Some d \<Rightarrow> d | None \<Rightarrow> device self) entry =
        batch_of_stream self (next_idx self) (next_idx self') k (next_idx self' \<le> next_idx self)
          (case dev of Some d \<Rightarrow> d | None \<Rightarrow> device self) entry"
    by (subst s') (rule batch_of_stream_cursor)
  with each loop len show ?thesis by auto
qed

lemma slice_as_indices:
  "b \<le> length xs \<Longrightarrow> drop a (take b xs) = map ((!) xs) [a..<b]"
  by (simp add: list_eq_iff_nth_eq)

section \<open>Where the selection stops\<close>

text \<open>
  C1, as stated, fails. On the sample data the records contribute 2, 1 and 3 samples.
  A request for 3 samples from the cursor 0 takes the records 0 and 1 and stops with a
  total of exactly 3, which is not greater than the request: the guard of the
  \<^verbatim>\<open>while\<close> is \<^verbatim>\<open>sample_count < num_samples_in_batch\<close>.
\<close>

theorem selection_stops_at_equality_counterexample:
  "select_loop ex_source 3 0 0 (next_idx ex_source) = Some (Inr (3, 2, 2)) \<and>
   \<not> above 3 3"
  by (simp add: ex_N ex_run_3 above_def numeral_eq_enat)

text \<open>
  C1, amended. For a request \<open>n > 0\<close> and a cursor inside the data, a selection loop
  that returns has started at the cursor, has added the maximum per-stream sample count
  \<open>cs ! j\<close> of each of the \<open>k\<close> consecutive records (modulo the number of records) it
  took, has taken at least one record, and has stopped the first time the total was
  greater than or equal to the request: every proper prefix of the contributions sums to
  less than \<open>n\<close>, the whole does not.
\<close>

theorem selection_stops_at_first_reach:
  assumes "0 < n"
    and "next_idx self < num_data_points self"
    and "select_loop self n 0 0 (next_idx self) = Some (Inr (tot, k, e))"
  shows "\<exists>cs. length cs = k \<and> 1 \<le> k \<and>
           (\<forall>j<k. max_seq_len_fn self ((next_idx self + j) mod num_data_points self) = Inr (cs ! j)) \<and>
           tot = sum_list cs \<and>
           e = (next_idx self + k) mod num_data_points self \<and>
           (\<forall>k'<k. below (sum_list (take k' cs)) n) \<and>
           \<not> below tot n"
proof -
  from select_loop_walk[OF assms(3)] assms(2) obtain cs :: "enat list" where
    cs: "k = 0 + length cs" "tot = 0 + sum_list cs"
        "e = (next_idx self + length cs) mod num_data_points self"
        "\<forall>j<length cs. max_seq_len_fn self ((next_idx self + j) mod num_data_points self) = Inr (cs ! j)"
        "\<forall>k<length cs. below (0 + sum_list (take k cs)) n"
        "\<not> below tot n"
    unfolding walked_def by blast
  have "cs \<noteq> []"
  proof
    assume "cs = []"
    with cs(2,6) assms(1) show False by simp
  qed
  then have "1 \<le> length cs" by (cases cs) simp_all
  with cs show ?thesis by (intro exI[of _ cs]) simp
qed

theorem selection_stops_at_first_reach_witness:
  "(0::int) < 3 \<and> next_idx ex_source < num_data_points ex_source \<and>
   select_loop ex_source 3 0 0 (next_idx ex_source) = Some (Inr (3, 2, 2)) \<and>
   (\<exists>cs. length cs = 2 \<and> (1::nat) \<le> 2 \<and>
         (\<forall>j<2. max_seq_len_fn ex_source ((next_idx ex_source + j) mod num_data_points ex_source) = Inr (cs ! j)) \<and>
         3 = sum_list cs \<and>
         2 = (next_idx ex_source + 2) mod num_data_points ex_source \<and>
         (\<forall>k'<2. below (sum_list (take k' cs)) 3) \<and>
         \<not> below 3 3)"
  using selection_stops_at_first_reach[of 3 ex_source 3 2 2]
  by (simp add: ex_N ex_run_3)

section \<open>Termination of the selection\<close>

lemma ex_short_N: "num_data_points ex_short_source = 2" "next_idx ex_short_source = 0"
  by (simp_all add: ex_short_source_def)

lemma ex_all_pos: "\<forall>i<num_data_points ex_source. \<exists>m\<ge>1. max_seq_len_fn ex_source i = Inr m"
proof (intro allI impI)
  fix i assume "i < num_data_points ex_source"
  then have "i = 0 \<or> i = 1 \<or> i = 2" by (auto simp: ex_N)
  then show "\<exists>m\<ge>1. max_seq_len_fn ex_source i = Inr m" using ex_contrib by auto
qed

lemma ex_short_all_zero:
  "\<forall>i<num_data_points ex_short_source. max_seq_len_fn ex_short_source i = Inr 0"
proof (intro allI impI)
  fix i assume "i < num_data_points ex_short_source"
  then have "i = 0 \<or> i = 1" by (auto simp: ex_short_N)
  then show "max_seq_len_fn ex_short_source i = Inr 0" using ex_short_contrib by auto
qed

lemma select_loop_returns_or_raises:
  assumes pos: "\<forall>i<num_data_points self. \<exists>m\<ge>1. max_seq_len_fn self i = Inr m"
    and N: "1 \<le> num_data_points self"
  shows "\<exists>y. select_loop self n sc ns e = Some y"
proof (cases "below sc n")
  case False
  then show ?thesis by (simp add: select_loop_stop)
next
  case True
  show ?thesis
  proof (cases "max_seq_len_fn self e")
    case (Inl err)
    with True show ?thesis by (simp add: select_loop_error)
  next
    case (Inr m)
    from N have N0: "num_data_points self \<noteq> 0" by simp
    note step = select_loop_step[OF True Inr N0, of ns]
    have e1: "(e + 1) mod num_data_points self < num_data_points self" using N0 by simp
    from select_loop_returns[OF pos e1, of n "sc + m" "ns + 1"] step show ?thesis by auto
  qed
qed

text \<open>
  C8. With at least one record and a maximum per-stream sample count of at least 1 at
  every record index, the selection loop ends for every request (it returns, or raises
  when the cursor is outside the data), and so does \<^verbatim>\<open>next_minibatch\<close>; with the cursor
  inside the data it returns a selection. If instead that maximum is 0 at every record
  index, the cursor is inside the data and the request is positive, the loop never ends,
  and neither does \<^verbatim>\<open>next_minibatch\<close>.
\<close>

theorem selection_loop_termination:
  "(1 \<le> num_data_points self \<and>
      (\<forall>i<num_data_points self. \<exists>m\<ge>1. max_seq_len_fn self i = Inr m)
      \<longrightarrow> (\<exists>y. select_loop self n 0 0 (next_idx self) = Some y) \<and>
          next_minibatch self n w rk dev \<noteq> None \<and>
          (next_idx self < num_data_points self \<longrightarrow>
             (\<exists>r. select_loop self n 0 0 (next_idx self) = Some (Inr r)))) \<and>
   (1 \<le> num_data_points self \<and> next_idx self < num_data_points self \<and>
      (\<forall>i<num_data_points self. max_seq_len_fn self i = Inr 0) \<and> 0 < n
      \<longrightarrow> select_loop self n 0 0 (next_idx self) = None \<and>
          next_minibatch self n w rk dev = None)"
proof (intro conjI impI)
  assume a: "1 \<le> num_data_points self \<and>
      (\<forall>i<num_data_points self. \<exists>m\<ge>1. max_seq_len_fn self i = Inr m)"
  then obtain y where y: "select_loop self n 0 0 (next_idx self) = Some y"
    using select_loop_returns_or_raises[of self n 0 0 "next_idx self"] by blast
  then show "\<exists>y. select_loop self n 0 0 (next_idx self) = Some y" by blast
  from y show "next_minibatch self n w rk dev \<noteq> None"
    by (cases y) (auto simp add: next_minibatch_def Let_def)
  assume "next_idx self < num_data_points self"
  with a show "\<exists>r. select_loop self n 0 0 (next_idx self) = Some (Inr r)"
    using select_loop_returns[of self "next_idx self" n 0 0] by blast
next
  assume b: "1 \<le> num_data_points self \<and> next_idx self < num_data_points self \<and>
      (\<forall>i<num_data_points self. max_seq_len_fn self i = Inr 0) \<and> 0 < n"
  then show none: "select_loop self n 0 0 (next_idx self) = None"
    using select_loop_never_returns[of n "next_idx self" self 0] by blast
  then show "next_minibatch self n w rk dev = None"
    by (simp add: next_minibatch_def Let_def)
qed

theorem selection_loop_termination_witness:
  "(1 \<le> num_data_points ex_source \<and> next_idx ex_source < num_data_points ex_source \<and>
    num_data_points ex_source = 3 \<and>
    max_seq_len_fn ex_source 0 = Inr 2 \<and> max_seq_len_fn ex_source 1 = Inr 1 \<and>
    max_seq_len_fn ex_source 2 = Inr 3 \<and>
    (\<exists>r. select_loop ex_source 100 0 0 (next_idx ex_source) = Some (Inr r)) \<and>
    next_minibatch ex_source 100 1 0 None \<noteq> None) \<and>
   (1 \<le> num_data_points ex_short_source \<and>
    next_idx ex_short_source < num_data_points ex_short_source \<and>
    num_data_points ex_short_source = 2 \<and>
    max_seq_len_fn ex_short_source 0 = Inr 0 \<and> max_seq_len_fn ex_short_source 1 = Inr 0 \<and>
    (0::int) < 1 \<and>
    select_loop ex_short_source 1 0 0 (next_idx ex_short_source) = None \<and>
    next_minibatch ex_short_source 1 1 0 None = None)"
  using selection_loop_termination[of ex_source 100 1 0 None]
        selection_loop_termination[of ex_short_source 1 1 0 None]
        ex_all_pos ex_short_all_zero ex_contrib ex_short_contrib
  by (simp add: ex_N ex_short_N)

section \<open>What a returned batch holds\<close>

lemma next_minibatch_facts:
  assumes call: "next_minibatch self n w rk dev = Some (Inr result, self')"
  shows "\<exists>sc k. select_loop self n 0 0 (next_idx self) = Some (Inr (sc, k, next_idx self')) \<and>
           length result = length (datagroup self) \<and>
           (\<forall>i<length (datagroup self).
              num_sequences (snd (result ! i)) = k \<and>
              sweep_end (snd (result ! i)) = (next_idx self' \<le> next_idx self) \<and>
              payload_blocks (payload (md_data (snd (result ! i)))) =
                extract_data self (snd (datagroup self ! i)) (next_idx self) (next_idx self')
                  (next_idx self' \<le> next_idx self) \<and>
              (is_seq_attr (snd (datagroup self ! i)) \<longrightarrow>
                 (\<exists>elm_shape lens. attrs_shape (snd (datagroup self ! i)) = Some elm_shape \<and>
                    map IntNum lens =
                      map (seq_len_of (snd (datagroup self ! i)) elm_shape)
                        (extract_data self (snd (datagroup self ! i)) (next_idx self)
                           (next_idx self') (next_idx self' \<le> next_idx self)) \<and>
                    num_samples (snd (result ! i)) = int64 (sum_list lens))) \<and>
              (\<not> is_seq_attr (snd (datagroup self ! i)) \<longrightarrow>
                 num_samples (snd (result ! i)) = int k))"
proof -
  let ?s = "next_idx self" and ?e = "next_idx self'"
  let ?dev = "case dev of Some d \<Rightarrow> d | None \<Rightarrow> device self"
  from next_minibatch_streams[OF call] obtain sc k where
    loop: "select_loop self n 0 0 ?s = Some (Inr (sc, k, ?e))"
    and len: "length result = length (datagroup self)"
    and each: "\<forall>i<length (datagroup self).
        batch_of_stream self ?s ?e k (?e \<le> ?s) ?dev (datagroup self ! i) = Inr (result ! i)"
    by blast
  have "\<forall>i<length (datagroup self).
              num_sequences (snd (result ! i)) = k \<and>
              sweep_end (snd (result ! i)) = (?e \<le> ?s) \<and>
              payload_blocks (payload (md_data (snd (result ! i)))) =
                extract_data self (snd (datagroup self ! i)) ?s ?e (?e \<le> ?s) \<and>
              (is_seq_attr (snd (datagroup self ! i)) \<longrightarrow>
                 (\<exists>elm_shape lens. attrs_shape (snd (datagroup self ! i)) = Some elm_shape \<and>
                    map IntNum lens =
                      map (seq_len_of (snd (datagroup self ! i)) elm_shape)
                        (extract_data self (snd (datagroup self ! i)) ?s ?e (?e \<le> ?s)) \<and>
                    num_samples (snd (result ! i)) = int64 (sum_list lens))) \<and>
              (\<not> is_seq_attr (snd (datagroup self ! i)) \<longrightarrow>
                 num_samples (snd (result ! i)) = int k)"
  proof (intro allI impI)
    fix i assume i: "i < length (datagroup self)"
    with each have
      b: "batch_of_stream self ?s ?e k (?e \<le> ?s) ?dev
            (fst (datagroup self ! i), snd (datagroup self ! i))
          = Inr (fst (result ! i), snd (result ! i))"
      by simp
    note f = batch_of_stream_result[OF b]
    show "num_sequences (snd (result ! i)) = k \<and>
              sweep_end (snd (result ! i)) = (?e \<le> ?s) \<and>
              payload_blocks (payload (md_data (snd (result ! i)))) =
                extract_data self (snd (datagroup self ! i)) ?s ?e (?e \<le> ?s) \<and>
              (is_seq_attr (snd (datagroup self ! i)) \<longrightarrow>
                 (\<exists>elm_shape lens. attrs_shape (snd (datagroup self ! i)) = Some elm_shape \<and>
                    map IntNum lens =
                      map (seq_len_of (snd (datagroup self ! i)) elm_shape)
                        (extract_data self (snd (datagroup self ! i)) ?s ?e (?e \<le> ?s)) \<and>
                    num_samples (snd (result ! i)) = int64 (sum_list lens))) \<and>
              (\<not> is_seq_attr (snd (datagroup self ! i)) \<longrightarrow>
                 num_samples (snd (result ! i)) = int k)"
      using f(1) f(2) f(4) f(5) f(6) by blast
  qed
  with loop len show ?thesis by blast
qed

lemma select_loop_walked:
  assumes "select_loop self n sc ns e = Some (Inr (sc', ns', e'))" "e < num_data_points self"
  shows "\<exists>cs. ns' = ns + length cs \<and> sc' = sc + sum_list cs \<and>
           e' = (e + length cs) mod num_data_points self \<and>
           (\<forall>j<length cs. max_seq_len_fn self ((e + j) mod num_data_points self) = Inr (cs ! j)) \<and>
           (\<forall>k<length cs. below (sc + sum_list (take k cs)) n) \<and>
           \<not> below sc' n"
proof -
  from select_loop_walk[OF assms(1)]
  have "walked self n sc ns e (Inr (sc', ns', e'))" .
  then show ?thesis unfolding walked_def using assms(2) by simp
qed

lemma select_loop_end_in_range:
  assumes "select_loop self n sc ns e = Some (Inr (sc', ns', e'))" "e < num_data_points self"
  shows "e' < num_data_points self"
proof -
  from select_loop_walked[OF assms] obtain cs :: "enat list" where
    "e' = (e + length cs) mod num_data_points self" by blast
  with assms(2) show ?thesis by simp
qed

lemma extract_data_indices:
  assumes "length (ds_records ds) = num_data_points self"
    and "s < num_data_points self" and "e < num_data_points self"
  shows "extract_data self ds s e (e \<le> s) =
           map ((!) (ds_records ds)) (if e \<le> s then [s..<num_data_points self] @ [0..<e] else [s..<e])"
proof -
  let ?xs = "ds_records ds" and ?N = "num_data_points self"
  have a: "drop s (take ?N ?xs) = map ((!) ?xs) [s..<?N]"
    using assms(1) by (intro slice_as_indices) simp
  have b: "drop 0 (take e ?xs) = map ((!) ?xs) [0..<e]"
    using assms(1,3) by (intro slice_as_indices) simp
  have c: "drop s (take e ?xs) = map ((!) ?xs) [s..<e]"
    using assms(1,3) by (intro slice_as_indices) simp
  show ?thesis unfolding extract_data_def py_slice_def a b c by simp
qed

section \<open>The cursor stays inside the data\<close>

text \<open>
  A constructed object starts with the cursor at 0 and counts the records of the last
  dataset of the group; a call that finds the cursor inside the data leaves it there.
\<close>

lemma init_loop_count:
  "init_loop i dg infos ndp = Inr (infos', ndp') \<Longrightarrow>
     ndp' = (if dg = [] then ndp else Some (length (ds_records (snd (last dg)))))"
proof (induction dg arbitrary: i infos ndp)
  case Nil
  then show ?case by simp
next
  case (Cons p dg)
  obtain name dataset where p: "p = (name, dataset)" by (cases p)
  from Cons.prems p obtain si where
    rest: "init_loop (Suc i) dg (dict_set name si infos) (Some (length (ds_records dataset)))
           = Inr (infos', ndp')"
    by (auto split: sum.splits)
  from Cons.IH[OF rest] p show ?case by simp
qed

lemma init_state:
  assumes "H5DataSource_init dg dev = Inr self"
  shows "dg \<noteq> [] \<and> datagroup self = dg \<and> device self = dev \<and> next_idx self = 0 \<and>
         num_data_points self = length (ds_records (snd (last dg)))"
proof -
  from assms obtain infos n where
    l: "init_loop 0 dg [] None = Inr (infos, Some n)"
    and s: "self = \<lparr>device = dev, datagroup = dg, stream_info_mapping = infos,
                    num_data_points = n, next_idx = 0\<rparr>"
    by (auto simp: H5DataSource_init_def split: sum.splits option.splits)
  from init_loop_count[OF l] have "dg \<noteq> []" "n = length (ds_records (snd (last dg)))"
    by (auto split: if_splits)
  with s show ?thesis by simp
qed

lemma next_minibatch_cursor_in_range:
  assumes "next_minibatch self n w rk dev = Some (out, self')"
    and "next_idx self < num_data_points self"
  shows "next_idx self' < num_data_points self' \<and> num_data_points self' = num_data_points self \<and>
         datagroup self' = datagroup self"
proof -
  from next_minibatch_unfold[OF assms(1)] show ?thesis
  proof (elim disjE exE conjE)
    fix err assume "self' = self"
    with assms(2) show ?thesis by simp
  next
    fix sc k
    assume loop: "select_loop self n 0 0 (next_idx self) = Some (Inr (sc, k, next_idx self'))"
      and s': "self' = self\<lparr>next_idx := next_idx self'\<rparr>"
    from select_loop_end_in_range[OF loop assms(2)] have e: "next_idx self' < num_data_points self" .
    have "num_data_points self' = num_data_points self" "datagroup self' = datagroup self"
      by (subst s', simp)+
    with e show ?thesis by simp
  qed
qed

section \<open>Sweep end and the extracted records\<close>

lemma ex_wrapped_call:
  "next_minibatch (ex_source\<lparr>next_idx := 2\<rparr>) 4 1 0 None
     = Some (Inr ex_wrapped_batch, ex_source\<lparr>next_idx := 1\<rparr>)"
  by code_simp

lemma ex_empty_request_call:
  "next_minibatch ex_source 0 1 0 None = Some (Inr ex_empty_request_batch, ex_source)"
  by code_simp

text \<open>
  C2. For every call that returns a batch, the \<^verbatim>\<open>sweep_end\<close> flag of every stream is
  true exactly when the final position \<open>end\<close> of the record pointer (the new cursor) is
  \<open>\<le>\<close> the start position (the old cursor). When it is true, the records handed over for
  the stream, as flat blocks, are the records \<open>[start, record_count)\<close> followed by the
  records \<open>[0, end)\<close>; when it is false they are the slice \<open>[start, end)\<close>. With the
  stream holding \<open>record_count\<close> records and the cursor inside the data these are the
  records at the indices \<open>start, ..., record_count - 1, 0, ..., end - 1\<close>, respectively
  \<open>start, ..., end - 1\<close>, in that order.
\<close>

theorem sweep_end_and_extracted_records:
  assumes "next_minibatch self n w rk dev = Some (Inr result, self')"
    and "i < length (datagroup self)"
  shows "sweep_end (snd (result ! i)) = (next_idx self' \<le> next_idx self) \<and>
         payload_blocks (payload (md_data (snd (result ! i)))) =
           (if next_idx self' \<le> next_idx self
            then drop (next_idx self)
                   (take (num_data_points self) (ds_records (snd (datagroup self ! i)))) @
                 take (next_idx self') (ds_records (snd (datagroup self ! i)))
            else drop (next_idx self)
                   (take (next_idx self') (ds_records (snd (datagroup self ! i))))) \<and>
         (length (ds_records (snd (datagroup self ! i))) = num_data_points self \<and>
          next_idx self < num_data_points self \<longrightarrow>
            payload_blocks (payload (md_data (snd (result ! i)))) =
              map ((!) (ds_records (snd (datagroup self ! i))))
                (if next_idx self' \<le> next_idx self
                 then [next_idx self..<num_data_points self] @ [0..<next_idx self']
                 else [next_idx self..<next_idx self']))"
proof -
  let ?s = "next_idx self" and ?e = "next_idx self'" and ?ds = "snd (datagroup self ! i)"
  from next_minibatch_facts[OF assms(1)] assms(2) obtain sc k where
    loop: "select_loop self n 0 0 ?s = Some (Inr (sc, k, ?e))"
    and sw: "sweep_end (snd (result ! i)) = (?e \<le> ?s)"
    and blocks: "payload_blocks (payload (md_data (snd (result ! i)))) =
                   extract_data self ?ds ?s ?e (?e \<le> ?s)"
    by blast
  have general: "extract_data self ?ds ?s ?e (?e \<le> ?s) =
           (if ?e \<le> ?s
            then drop ?s (take (num_data_points self) (ds_records ?ds)) @ take ?e (ds_records ?ds)
            else drop ?s (take ?e (ds_records ?ds)))"
    by (simp add: extract_data_def py_slice_def)
  have indexed: "extract_data self ?ds ?s ?e (?e \<le> ?s) =
              map ((!) (ds_records ?ds))
                (if ?e \<le> ?s then [?s..<num_data_points self] @ [0..<?e] else [?s..<?e])"
    if len: "length (ds_records ?ds) = num_data_points self" and s: "?s < num_data_points self"
  proof -
    from select_loop_end_in_range[OF loop s] have "?e < num_data_points self" .
    from extract_data_indices[OF len s this] show ?thesis .
  qed
  from sw blocks general indexed show ?thesis by simp
qed

theorem sweep_end_and_extracted_records_witness:
  "next_minibatch (ex_source\<lparr>next_idx := 2\<rparr>) 4 1 0 None
     = Some (Inr ex_wrapped_batch, ex_source\<lparr>next_idx := 1\<rparr>) \<and>
   (1::nat) < length (datagroup (ex_source\<lparr>next_idx := 2\<rparr>)) \<and>
   length (ds_records ex_vlen) = num_data_points (ex_source\<lparr>next_idx := 2\<rparr>) \<and>
   sweep_end (snd (ex_wrapped_batch ! 1)) = (next_idx (ex_source\<lparr>next_idx := 1\<rparr>) \<le> 2) \<and>
   payload_blocks (payload (md_data (snd (ex_wrapped_batch ! 1)))) =
     [[30, 31, 32, 33, 34, 35], [10, 11, 12, 13]] \<and>
   map ((!) (ds_records ex_vlen)) ([2..<3] @ [0..<1]) = [[30, 31, 32, 33, 34, 35], [10, 11, 12, 13]]"
  using sweep_end_and_extracted_records
          [of "ex_source\<lparr>next_idx := 2\<rparr>" 4 1 0 None ex_wrapped_batch
              "ex_source\<lparr>next_idx := 1\<rparr>" 1]
        ex_wrapped_call
  by (simp add: ex_source_def ex_vlen_def ex_wrapped_batch_def upt_rec)

section \<open>The streams of one batch\<close>

lemma ex_wrapped_run: "select_loop (ex_source\<lparr>next_idx := 2\<rparr>) 4 0 0 2 = Some (Inr (5, 2, 1))"
  by code_simp

text \<open>
  C3. In a returned batch there is one entry per stream, and all entries come from the
  one run of the selection loop: the start, the end it returned and the wrapped flag go
  into the extraction of every stream, every entry reports the number of records
  \<open>num_seq\<close> that the loop counted as its \<^verbatim>\<open>num_sequences\<close>, and the same \<^verbatim>\<open>sweep_end\<close>.
  The sample count of a sequence stream is the sum, over its extracted records, of the
  sequence length \<^verbatim>\<open>seq_size // elm_size\<close>, added up as the code adds it, in 64-bit
  integers: it is the plain sum whenever that is a 64-bit integer. The sample count of
  any other stream is \<open>num_seq\<close>, the number of records the loop selected; with the
  cursor inside the data the loop has moved the cursor by \<open>num_seq\<close> positions.
\<close>

theorem streams_aligned_and_counted:
  assumes "next_minibatch self n w rk dev = Some (Inr result, self')"
  shows "length result = length (datagroup self) \<and>
         (\<exists>sc num_seq.
            select_loop self n 0 0 (next_idx self) = Some (Inr (sc, num_seq, next_idx self')) \<and>
            (next_idx self < num_data_points self \<longrightarrow>
               next_idx self' = (next_idx self + num_seq) mod num_data_points self) \<and>
            (\<forall>i<length (datagroup self).
               num_sequences (snd (result ! i)) = num_seq \<and>
               sweep_end (snd (result ! i)) = (next_idx self' \<le> next_idx self) \<and>
               payload_blocks (payload (md_data (snd (result ! i)))) =
                 extract_data self (snd (datagroup self ! i)) (next_idx self) (next_idx self')
                   (next_idx self' \<le> next_idx self) \<and>
               (if is_seq_attr (snd (datagroup self ! i))
                then \<exists>elm_shape lens.
                       attrs_shape (snd (datagroup self ! i)) = Some elm_shape \<and>
                       map IntNum lens =
                         map (seq_len_of (snd (datagroup self ! i)) elm_shape)
                           (payload_blocks (payload (md_data (snd (result ! i))))) \<and>
                       num_samples (snd (result ! i)) = int64 (sum_list lens) \<and>
                       (- (2 ^ 63) \<le> sum_list lens \<and> sum_list lens < 2 ^ 63 \<longrightarrow>
                          num_samples (snd (result ! i)) = sum_list lens)
                else num_samples (snd (result ! i)) = int num_seq)))"
proof -
  let ?s = "next_idx self" and ?e = "next_idx self'"
  from next_minibatch_facts[OF assms] obtain sc k where
    loop: "select_loop self n 0 0 ?s = Some (Inr (sc, k, ?e))"
    and len: "length result = length (datagroup self)"
    and each: "\<forall>i<length (datagroup self).
              num_sequences (snd (result ! i)) = k \<and>
              sweep_end (snd (result ! i)) = (?e \<le> ?s) \<and>
              payload_blocks (payload (md_data (snd (result ! i)))) =
                extract_data self (snd (datagroup self ! i)) ?s ?e (?e \<le> ?s) \<and>
              (is_seq_attr (snd (datagroup self ! i)) \<longrightarrow>
                 (\<exists>elm_shape lens. attrs_shape (snd (datagroup self ! i)) = Some elm_shape \<and>
                    map IntNum lens =
                      map (seq_len_of (snd (datagroup self ! i)) elm_shape)
                        (extract_data self (snd (datagroup self ! i)) ?s ?e (?e \<le> ?s)) \<and>
                    num_samples (snd (result ! i)) = int64 (sum_list lens))) \<and>
              (\<not> is_seq_attr (snd (datagroup self ! i)) \<longrightarrow>
                 num_samples (snd (result ! i)) = int k)"
    by blast
  have moved: "?e = (?s + k) mod num_data_points self" if s: "?s < num_data_points self"
  proof -
    from select_loop_walked[OF loop s] obtain cs :: "enat list" where
      "k = 0 + length cs" "?e = (?s + length cs) mod num_data_points self"
      by blast
    then show ?thesis by simp
  qed
  have "\<forall>i<length (datagroup self).
               num_sequences (snd (result ! i)) = k \<and>
               sweep_end (snd (result ! i)) = (?e \<le> ?s) \<and>
               payload_blocks (payload (md_data (snd (result ! i)))) =
                 extract_data self (snd (datagroup self ! i)) ?s ?e (?e \<le> ?s) \<and>
               (if is_seq_attr (snd (datagroup self ! i))
                then \<exists>elm_shape lens.
                       attrs_shape (snd (datagroup self ! i)) = Some elm_shape \<and>
                       map IntNum lens =
                         map (seq_len_of (snd (datagroup self ! i)) elm_shape)
                           (payload_blocks (payload (md_data (snd (result ! i))))) \<and>
                       num_samples (snd (result ! i)) = int64 (sum_list lens) \<and>
                       (- (2 ^ 63) \<le> sum_list lens \<and> sum_list lens < 2 ^ 63 \<longrightarrow>
                          num_samples (snd (result ! i)) = sum_list lens)
                else num_samples (snd (result ! i)) = int k)"
  proof (intro allI impI)
    fix i assume i: "i < length (datagroup self)"
    let ?ds = "snd (datagroup self ! i)" and ?md = "snd (result ! i)"
    from each i have
      a: "num_sequences ?md = k" "sweep_end ?md = (?e \<le> ?s)"
      and b: "payload_blocks (payload (md_data ?md)) = extract_data self ?ds ?s ?e (?e \<le> ?s)"
      and c: "is_seq_attr ?ds \<Longrightarrow>
                \<exists>elm_shape lens. attrs_shape ?ds = Some elm_shape \<and>
                    map IntNum lens = map (seq_len_of ?ds elm_shape)
                        (extract_data self ?ds ?s ?e (?e \<le> ?s)) \<and>
                    num_samples ?md = int64 (sum_list lens)"
      and d: "\<not> is_seq_attr ?ds \<Longrightarrow> num_samples ?md = int k"
      by blast+
    have c': "\<exists>elm_shape lens. attrs_shape ?ds = Some elm_shape \<and>
                map IntNum lens = map (seq_len_of ?ds elm_shape)
                   (payload_blocks (payload (md_data ?md))) \<and>
                num_samples ?md = int64 (sum_list lens) \<and>
                (- (2 ^ 63) \<le> sum_list lens \<and> sum_list lens < 2 ^ 63 \<longrightarrow>
                   num_samples ?md = sum_list lens)"
      if "is_seq_attr ?ds"
    proof -
      from c[OF that] obtain elm_shape lens where
        e: "attrs_shape ?ds = Some elm_shape"
           "map IntNum lens = map (seq_len_of ?ds elm_shape) (extract_data self ?ds ?s ?e (?e \<le> ?s))"
           "num_samples ?md = int64 (sum_list lens)"
        by blast
      have "- (2 ^ 63) \<le> sum_list lens \<and> sum_list lens < 2 ^ 63 \<longrightarrow>
              num_samples ?md = sum_list lens"
        using e(3) int64_id[of "sum_list lens"] by simp
      with e b show ?thesis by auto
    qed
    show "num_sequences ?md = k \<and>
               sweep_end ?md = (?e \<le> ?s) \<and>
               payload_blocks (payload (md_data ?md)) =
                 extract_data self ?ds ?s ?e (?e \<le> ?s) \<and>
               (if is_seq_attr ?ds
                then \<exists>elm_shape lens.
                       attrs_shape ?ds = Some elm_shape \<and>
                       map IntNum lens =
                         map (seq_len_of ?ds elm_shape)
                           (payload_blocks (payload (md_data ?md))) \<and>
                       num_samples ?md = int64 (sum_list lens) \<and>
                       (- (2 ^ 63) \<le> sum_list lens \<and> sum_list lens < 2 ^ 63 \<longrightarrow>
                          num_samples ?md = sum_list lens)
                else num_samples ?md = int k)"
      using a b c' d by (cases "is_seq_attr ?ds") simp_all
  qed
  with len loop moved show ?thesis by blast
qed

theorem streams_aligned_and_counted_witness:
  "next_minibatch (ex_source\<lparr>next_idx := 2\<rparr>) 4 1 0 None
     = Some (Inr ex_wrapped_batch, ex_source\<lparr>next_idx := 1\<rparr>) \<and>
   select_loop (ex_source\<lparr>next_idx := 2\<rparr>) 4 0 0 2 = Some (Inr (5, 2, 1)) \<and>
   length ex_wrapped_batch = length (datagroup (ex_source\<lparr>next_idx := 2\<rparr>)) \<and>
   (\<exists>sc num_seq.
       select_loop (ex_source\<lparr>next_idx := 2\<rparr>) 4 0 0 2 = Some (Inr (sc, num_seq, 1)) \<and>
       1 = (2 + num_seq) mod 3 \<and>
       num_sequences (snd (ex_wrapped_batch ! 0)) = num_seq \<and>
       num_sequences (snd (ex_wrapped_batch ! 1)) = num_seq \<and>
       num_samples (snd (ex_wrapped_batch ! 0)) = int num_seq) \<and>
   num_sequences (snd (ex_wrapped_batch ! 0)) = 2 \<and>
   num_sequences (snd (ex_wrapped_batch ! 1)) = 2 \<and>
   num_samples (snd (ex_wrapped_batch ! 0)) = 2 \<and>
   map (seq_len_of ex_vlen [2]) (payload_blocks (payload (md_data (snd (ex_wrapped_batch ! 1)))))
     = map IntNum [3, 2] \<and>
   num_samples (snd (ex_wrapped_batch ! 1)) = 3 + 2"
  using streams_aligned_and_counted
          [of "ex_source\<lparr>next_idx := 2\<rparr>" 4 1 0 None ex_wrapped_batch
              "ex_source\<lparr>next_idx := 1\<rparr>"]
        ex_wrapped_call ex_wrapped_run
  by (simp add: ex_source_def ex_wrapped_batch_def seq_len_of_def record_shape_def ex_vlen_def
        np_prod_def int64_def)

section \<open>Progress of the cursor\<close>

lemma selection_walk_from_cursor:
  assumes "0 < n" "e < num_data_points self"
    and "select_loop self n 0 0 e = Some (Inr (sc, k, e'))"
  shows "1 \<le> k \<and> e' = (e + k) mod num_data_points self"
proof -
  from select_loop_walked[OF assms(3,2)] obtain cs :: "enat list" where
    cs: "k = 0 + length cs" "sc = 0 + sum_list cs"
        "e' = (e + length cs) mod num_data_points self" "\<not> below sc n"
    by blast
  have "cs \<noteq> []"
  proof
    assume "cs = []"
    with cs(2,4) assms(1) show False by simp
  qed
  then have "1 \<le> length cs" by (cases cs) simp_all
  with cs show ?thesis by simp
qed

lemma empty_request_stops:
  assumes "n \<le> 0"
  shows "select_loop self n 0 0 e = Some (Inr (0, 0, e))"
proof -
  from assms have "\<not> below 0 n" by simp
  then show ?thesis by (rule select_loop_stop)
qed

text \<open>
  C4, as stated, fails. A request for 0 samples selects nothing: the call returns with
  the cursor where it was and reports 0 records for every stream.
\<close>

theorem cursor_stays_on_empty_request_counterexample:
  "next_minibatch ex_source 0 1 0 None = Some (Inr ex_empty_request_batch, ex_source) \<and>
   map (num_sequences \<circ> snd) ex_empty_request_batch = [0, 0]"
  using ex_empty_request_call by (simp add: ex_empty_request_batch_def)

text \<open>
  C4, amended. For a request \<open>n > 0\<close> and a cursor inside the data, every call that
  returns a batch has advanced the cursor by \<open>k \<ge> 1\<close> record positions modulo the number
  of records, \<open>k\<close> being the \<^verbatim>\<open>num_sequences\<close> of every stream of the batch. For a
  request \<open>n \<le> 0\<close> the call returns and leaves the object, and with it the cursor, as
  it was, and every stream of a returned batch reports 0 records.
\<close>

theorem cursor_advances_on_positive_request:
  "(0 < n \<and> next_idx self < num_data_points self \<and>
    next_minibatch self n w rk dev = Some (Inr result, self')
    \<longrightarrow> (\<exists>k\<ge>1. next_idx self' = (next_idx self + k) mod num_data_points self \<and>
                (\<forall>i<length result. num_sequences (snd (result ! i)) = k))) \<and>
   (n \<le> 0
    \<longrightarrow> (\<exists>out. next_minibatch self n w rk dev = Some (out, self)) \<and>
        (next_minibatch self n w rk dev = Some (Inr result, self')
         \<longrightarrow> self' = self \<and> next_idx self' = next_idx self \<and>
             (\<forall>i<length result. num_sequences (snd (result ! i)) = 0)))"
proof (intro conjI impI)
  assume a: "0 < n \<and> next_idx self < num_data_points self \<and>
    next_minibatch self n w rk dev = Some (Inr result, self')"
  from next_minibatch_facts[of self n w rk dev result self'] a obtain sc k where
    loop: "select_loop self n 0 0 (next_idx self) = Some (Inr (sc, k, next_idx self'))"
    and len: "length result = length (datagroup self)"
    and each: "\<forall>i<length (datagroup self). num_sequences (snd (result ! i)) = k"
    by blast
  from a have n: "0 < n" and s: "next_idx self < num_data_points self" by simp_all
  from selection_walk_from_cursor[OF n s loop] have
    "1 \<le> k" "next_idx self' = (next_idx self + k) mod num_data_points self"
    by auto
  with each len show "\<exists>k\<ge>1. next_idx self' = (next_idx self + k) mod num_data_points self \<and>
                (\<forall>i<length result. num_sequences (snd (result ! i)) = k)"
    by auto
next
  assume n: "n \<le> 0"
  note stop = empty_request_stops[OF n, of self "next_idx self"]
  show "\<exists>out. next_minibatch self n w rk dev = Some (out, self)"
    by (simp add: next_minibatch_def Let_def stop)
  assume call: "next_minibatch self n w rk dev = Some (Inr result, self')"
  from next_minibatch_facts[OF call] obtain sc k where
    loop: "select_loop self n 0 0 (next_idx self) = Some (Inr (sc, k, next_idx self'))"
    and len: "length result = length (datagroup self)"
    and each: "\<forall>i<length (datagroup self). num_sequences (snd (result ! i)) = k"
    by blast
  from loop stop have k: "k = 0" and e: "next_idx self' = next_idx self" by simp_all
  from next_minibatch_unfold[OF call] have "self' = self\<lparr>next_idx := next_idx self'\<rparr>"
    by auto
  with e show "self' = self" by simp
  show "next_idx self' = next_idx self" by (rule e)
  from each len k show "\<forall>i<length result. num_sequences (snd (result ! i)) = 0" by simp
qed

theorem cursor_advances_on_positive_request_witness:
  "((0::int) < 4 \<and>
    next_idx (ex_source\<lparr>next_idx := 2\<rparr>) < num_data_points (ex_source\<lparr>next_idx := 2\<rparr>) \<and>
    next_minibatch (ex_source\<lparr>next_idx := 2\<rparr>) 4 1 0 None
      = Some (Inr ex_wrapped_batch, ex_source\<lparr>next_idx := 1\<rparr>) \<and>
    (\<exists>k\<ge>1. next_idx (ex_source\<lparr>next_idx := 1\<rparr>)
              = (next_idx (ex_source\<lparr>next_idx := 2\<rparr>) + k)
                  mod num_data_points (ex_source\<lparr>next_idx := 2\<rparr>) \<and>
            (\<forall>i<length ex_wrapped_batch. num_sequences (snd (ex_wrapped_batch ! i)) = k))) \<and>
   ((0::int) \<le> 0 \<and>
    next_minibatch ex_source 0 1 0 None = Some (Inr ex_empty_request_batch, ex_source) \<and>
    next_idx ex_source = 0 \<and> length ex_empty_request_batch = 2 \<and>
    num_sequences (snd (ex_empty_request_batch ! 0)) = 0 \<and>
    num_sequences (snd (ex_empty_request_batch ! 1)) = 0)"
  using cursor_advances_on_positive_request
          [of 4 "ex_source\<lparr>next_idx := 2\<rparr>" 1 0 None ex_wrapped_batch
              "ex_source\<lparr>next_idx := 1\<rparr>"]
        cursor_advances_on_positive_request
          [of 0 ex_source 1 0 None ex_empty_request_batch ex_source]
        ex_wrapped_call ex_empty_request_call
  by (simp add: ex_source_def ex_empty_request_batch_def)

section \<open>A request for no samples\<close>

text \<open>
  C9. For a request \<open>n \<le> 0\<close> the body of the selection loop never runs: the loop
  returns at once with \<open>end = start\<close> and no record counted, the call returns, and the
  cursor is unchanged. If it returns a batch, every stream carries \<^verbatim>\<open>sweep_end\<close> true
  and \<^verbatim>\<open>num_sequences\<close> 0, while its data are the records \<open>[start, record_count)\<close>
  followed by the records \<open>[0, start)\<close>: the whole dataset, when the stream holds
  \<open>record_count\<close> records.
\<close>

theorem empty_request_returns_whole_dataset:
  assumes "n \<le> 0"
  shows "select_loop self n 0 0 (next_idx self) = Some (Inr (0, 0, next_idx self)) \<and>
         (\<exists>out. next_minibatch self n w rk dev = Some (out, self)) \<and>
         (\<forall>result. next_minibatch self n w rk dev = Some (Inr result, self) \<longrightarrow>
            length result = length (datagroup self) \<and>
            (\<forall>i<length (datagroup self).
               sweep_end (snd (result ! i)) \<and>
               num_sequences (snd (result ! i)) = 0 \<and>
               payload_blocks (payload (md_data (snd (result ! i)))) =
                 drop (next_idx self)
                   (take (num_data_points self) (ds_records (snd (datagroup self ! i)))) @
                 take (next_idx self) (ds_records (snd (datagroup self ! i))) \<and>
               (length (ds_records (snd (datagroup self ! i))) = num_data_points self \<longrightarrow>
                  payload_blocks (payload (md_data (snd (result ! i)))) =
                    drop (next_idx self) (ds_records (snd (datagroup self ! i))) @
                    take (next_idx self) (ds_records (snd (datagroup self ! i))))))"
proof (intro conjI allI impI)
  from assms have stop: "\<not> below 0 n" by simp
  show loop: "select_loop self n 0 0 (next_idx self) = Some (Inr (0, 0, next_idx self))"
    using select_loop_stop[OF stop] .
  have same: "self\<lparr>next_idx := next_idx self\<rparr> = self" by simp
  show "\<exists>out. next_minibatch self n w rk dev = Some (out, self)"
    by (simp add: next_minibatch_def Let_def loop)
next
  fix result i
  assume call: "next_minibatch self n w rk dev = Some (Inr result, self)"
  from next_minibatch_facts[OF call] obtain sc k where
    loop: "select_loop self n 0 0 (next_idx self) = Some (Inr (sc, k, next_idx self))"
    and len: "length result = length (datagroup self)"
    and each: "\<forall>i<length (datagroup self).
              num_sequences (snd (result ! i)) = k \<and>
              sweep_end (snd (result ! i)) = (next_idx self \<le> next_idx self) \<and>
              payload_blocks (payload (md_data (snd (result ! i)))) =
                extract_data self (snd (datagroup self ! i)) (next_idx self) (next_idx self)
                  (next_idx self \<le> next_idx self)"
    by blast
  from assms have stop: "\<not> below 0 n" by simp
  from loop select_loop_stop[OF stop, of self 0 "next_idx self"] have k: "k = 0" by simp
  show "length result = length (datagroup self)" by (rule len)
  assume i: "i < length (datagroup self)"
  let ?recs = "ds_records (snd (datagroup self ! i))"
  from each i k show "sweep_end (snd (result ! i))" "num_sequences (snd (result ! i)) = 0"
    by simp_all
  from each i show blocks: "payload_blocks (payload (md_data (snd (result ! i)))) =
       drop (next_idx self) (take (num_data_points self) ?recs) @ take (next_idx self) ?recs"
    by (simp add: extract_data_def py_slice_def)
  assume "length ?recs = num_data_points self"
  with blocks show "payload_blocks (payload (md_data (snd (result ! i)))) =
       drop (next_idx self) ?recs @ take (next_idx self) ?recs"
    by simp
qed

theorem empty_request_returns_whole_dataset_witness:
  "(0::int) \<le> 0 \<and>
   select_loop ex_source 0 0 0 (next_idx ex_source) = Some (Inr (0, 0, next_idx ex_source)) \<and>
   next_minibatch ex_source 0 1 0 None = Some (Inr ex_empty_request_batch, ex_source) \<and>
   length ex_empty_request_batch = length (datagroup ex_source) \<and>
   sweep_end (snd (ex_empty_request_batch ! 1)) \<and>
   num_sequences (snd (ex_empty_request_batch ! 1)) = 0 \<and>
   payload_blocks (payload (md_data (snd (ex_empty_request_batch ! 1)))) = ds_records ex_vlen"
  using empty_request_returns_whole_dataset[of 0 ex_source 1 0 None]
        ex_empty_request_call
  by (simp add: ex_source_def ex_vlen_def ex_empty_request_batch_def)

section \<open>Sample counts and divisibility\<close>

lemma seq_len_vlen:
  assumes "ds_vlen ds" and "shp \<noteq> []"
  shows "seq_len_of ds shp seq =
           IntNum (if int64 (int (prod_list shp)) = 0 then 0
                   else int64 (int64 (int (length seq)) div int64 (int (prod_list shp))))"
proof -
  have a: "np_prod (record_shape ds seq) = IntSize (int64 (int (length seq)))"
    using assms(1) np_prod_nonempty[of "[length seq]"] by (simp add: record_shape_def)
  have b: "np_prod shp = IntSize (int64 (int (prod_list shp)))"
    using assms(2) by (rule np_prod_nonempty)
  show ?thesis unfolding seq_len_of_def a b by simp
qed

lemma seq_len_floor:
  assumes "ds_vlen ds" and "shp \<noteq> []" and "prod_list shp < 2 ^ 63" and "length seq < 2 ^ 63"
  shows "seq_len_of ds shp seq = IntNum (int (length seq div prod_list shp))"
proof -
  let ?L = "length seq" and ?P = "prod_list shp"
  have q: "int ?L div int ?P = int (?L div ?P)" by (simp add: zdiv_int)
  have "?L div ?P \<le> ?L" by simp
  then have "?L div ?P < 2 ^ 63" using assms(4) by (rule le_less_trans)
  then have i: "int64 (int (?L div ?P)) = int (?L div ?P)" by (rule int64_nat)
  have "seq_len_of ds shp seq =
          IntNum (if int ?P = 0 then 0 else int64 (int ?L div int ?P))"
    unfolding seq_len_vlen[OF assms(1,2)] int64_nat[OF assms(3)] int64_nat[OF assms(4)] ..
  also have "\<dots> = IntNum (int (?L div ?P))"
    unfolding q i by simp
  finally show ?thesis .
qed

lemma seq_len_multiple:
  assumes "ds_vlen ds" and "shp \<noteq> []" and "0 < prod_list shp"
    and "length seq = k * prod_list shp" and "length seq < 2 ^ 63"
  shows "seq_len_of ds shp seq = IntNum (int k)"
proof (cases "k = 0")
  case True
  with assms(4) have "length seq = 0" by simp
  then show ?thesis using True unfolding seq_len_vlen[OF assms(1,2)]
    by (simp add: int64_def)
next
  case False
  then have "1 \<le> k" by simp
  then have "1 * prod_list shp \<le> k * prod_list shp" by (rule mult_le_mono1)
  then have "prod_list shp \<le> length seq" using assms(4) by simp
  then have small: "prod_list shp < 2 ^ 63" using assms(5) by (rule le_less_trans)
  have "length seq div prod_list shp = k" using assms(3,4) by simp
  with seq_len_floor[OF assms(1,2) small assms(5)] show ?thesis by simp
qed

text \<open>
  The product of the element shape is formed in 64 bits: for the declared shape
  \<open>(4294967297, 4294967295)\<close> it is \<open>-1\<close>, and a record of four numbers counts \<open>-4\<close>
  samples.
\<close>

lemma sample_count_wraps: "sample_count_fn ex_wide 0 = Inr (IntNum (- 4))"
  by (simp add: sample_count_fn_def is_seq_attr_def ex_wide_def record_shape_def np_prod_def
        int64_def)

text \<open>
  C5, as stated, fails. For elements of shape \<open>(2,)\<close> and a record of three numbers,
  \<^verbatim>\<open>sample_count_\<close> raises nothing and returns the floored quotient 1.
\<close>

theorem sample_count_floors_counterexample:
  "is_seq_attr ex_ragged \<and> attrs_shape ex_ragged = Some [2] \<and>
   length (ds_records ex_ragged ! 0) mod prod_list [2] = 1 \<and>
   sample_count_fn ex_ragged 0 = Inr (IntNum 1)"
  by (simp add: ex_ragged_def is_seq_attr_def sample_count_fn_def record_shape_def np_prod_def
        int64_def)

text \<open>
  C5, amended. \<^verbatim>\<open>sample_count_\<close> returns 1 for a stream that is not a sequence. For a
  sequence stream with its \<^verbatim>\<open>shape\<close> attribute and a record inside the dataset it never
  raises: it returns \<^verbatim>\<open>seq_size // elm_size\<close>. For a variable-length record (a flat
  block) and an element shape that is not empty this is the floored quotient, in 64-bit
  integers, of the block length by the product of the element shape, the product wrapped
  to 64 bits and the quotient 0 when that is 0. With the product and the block length
  below \<open>2^63\<close> it is the floored quotient of the two numbers, which is \<open>k\<close> when the
  block holds exactly \<open>k\<close> elements. A block whose length is not a multiple of the
  product of the element shape is rejected only during batch assembly, where the loop
  that reshapes the records raises: \<^verbatim>\<open>ValueError\<close> from \<^verbatim>\<open>np.reshape\<close> when neither the
  element shape nor the shape of the record is empty, \<^verbatim>\<open>ValueError\<close> or \<^verbatim>\<open>TypeError\<close>
  in general.
\<close>

theorem sample_count_is_floored_quotient:
  "(\<not> is_seq_attr dataset \<longrightarrow> sample_count_fn dataset data_idx = Inr (IntNum 1)) \<and>
   (is_seq_attr dataset \<and> attrs_shape dataset = Some elm_shape \<and>
    data_idx < length (ds_records dataset) \<longrightarrow>
      sample_count_fn dataset data_idx =
        Inr (seq_len_of dataset elm_shape (ds_records dataset ! data_idx)) \<and>
      (ds_vlen dataset \<and> elm_shape \<noteq> [] \<longrightarrow>
         sample_count_fn dataset data_idx =
           Inr (IntNum
                 (if int64 (int (prod_list elm_shape)) = 0 then 0
                  else int64 (int64 (int (length (ds_records dataset ! data_idx)))
                                div int64 (int (prod_list elm_shape)))))) \<and>
      (ds_vlen dataset \<and> elm_shape \<noteq> [] \<and> prod_list elm_shape < 2 ^ 63 \<and>
       length (ds_records dataset ! data_idx) < 2 ^ 63 \<longrightarrow>
         sample_count_fn dataset data_idx =
           Inr (IntNum (int (length (ds_records dataset ! data_idx) div prod_list elm_shape))) \<and>
         (\<forall>k. 0 < prod_list elm_shape \<and>
              length (ds_records dataset ! data_idx) = k * prod_list elm_shape \<longrightarrow>
              sample_count_fn dataset data_idx = Inr (IntNum (int k))))) \<and>
   (seq \<in> set data \<and> length seq mod prod_list elm_shape \<noteq> 0 \<longrightarrow>
      (\<exists>err. reshape_loop dataset elm_shape (np_prod elm_shape) data res_data sample_count
                = Inl err \<and> (err = ValueError \<or> err = TypeError)) \<and>
      (elm_shape \<noteq> [] \<and> (ds_vlen dataset \<or> ds_shape_tail dataset \<noteq> []) \<longrightarrow>
         reshape_loop dataset elm_shape (np_prod elm_shape) data res_data sample_count
           = Inl ValueError))"
proof (intro conjI impI allI)
  assume "\<not> is_seq_attr dataset"
  then show "sample_count_fn dataset data_idx = Inr (IntNum 1)"
    by (simp add: sample_count_fn_def)
next
  let ?seq = "ds_records dataset ! data_idx"
  assume a: "is_seq_attr dataset \<and> attrs_shape dataset = Some elm_shape \<and>
    data_idx < length (ds_records dataset)"
  then show q: "sample_count_fn dataset data_idx = Inr (seq_len_of dataset elm_shape ?seq)"
    by (simp add: sample_count_fn_def seq_len_of_def Let_def)
  {
    assume "ds_vlen dataset \<and> elm_shape \<noteq> []"
    then have v: "ds_vlen dataset" and ne: "elm_shape \<noteq> []" by simp_all
    show "sample_count_fn dataset data_idx =
           Inr (IntNum
                 (if int64 (int (prod_list elm_shape)) = 0 then 0
                  else int64 (int64 (int (length ?seq)) div int64 (int (prod_list elm_shape)))))"
      unfolding q seq_len_vlen[OF v ne] ..
  }
  assume b: "ds_vlen dataset \<and> elm_shape \<noteq> [] \<and> prod_list elm_shape < 2 ^ 63 \<and>
       length ?seq < 2 ^ 63"
  then have v: "ds_vlen dataset" and ne: "elm_shape \<noteq> []"
    and sp: "prod_list elm_shape < 2 ^ 63" and sl: "length ?seq < 2 ^ 63"
    by simp_all
  show "sample_count_fn dataset data_idx =
           Inr (IntNum (int (length ?seq div prod_list elm_shape)))"
    unfolding q seq_len_floor[OF v ne sp sl] ..
  fix k
  assume "0 < prod_list elm_shape \<and> length ?seq = k * prod_list elm_shape"
  then have "0 < prod_list elm_shape" "length ?seq = k * prod_list elm_shape" by simp_all
  from seq_len_multiple[OF v ne this sl] q
  show "sample_count_fn dataset data_idx = Inr (IntNum (int k))" by simp
next
  assume c: "seq \<in> set data \<and> length seq mod prod_list elm_shape \<noteq> 0"
  then have "seq \<in> set data" "length seq mod prod_list elm_shape \<noteq> 0" by simp_all
  from reshape_loop_fails[OF this, of dataset "np_prod elm_shape" res_data sample_count]
  obtain err where
    err: "reshape_loop dataset elm_shape (np_prod elm_shape) data res_data sample_count = Inl err"
    by blast
  from reshape_loop_error[OF err] err
  show "\<exists>err. reshape_loop dataset elm_shape (np_prod elm_shape) data res_data sample_count
                = Inl err \<and> (err = ValueError \<or> err = TypeError)"
    by blast
  assume "elm_shape \<noteq> [] \<and> (ds_vlen dataset \<or> ds_shape_tail dataset \<noteq> [])"
  then have "elm_shape \<noteq> []" "ds_vlen dataset \<or> ds_shape_tail dataset \<noteq> []" by simp_all
  from reshape_loop_value_error[OF err this] err
  show "reshape_loop dataset elm_shape (np_prod elm_shape) data res_data sample_count
           = Inl ValueError"
    by simp
qed

lemma ex_ragged_reshape:
  "reshape_loop ex_ragged [2] (np_prod [2]) (ds_records ex_ragged) [] 0 = Inl ValueError"
  by (simp add: ex_ragged_def record_shape_def np_prod_def int64_def np_reshape_def Let_def)

theorem sample_count_is_floored_quotient_witness:
  "\<not> is_seq_attr ex_label \<and> sample_count_fn ex_label 1 = Inr (IntNum 1) \<and>
   is_seq_attr ex_vlen \<and> attrs_shape ex_vlen = Some [2] \<and> (2::nat) < length (ds_records ex_vlen) \<and>
   ds_vlen ex_vlen \<and> [2::nat] \<noteq> [] \<and> prod_list [2::nat] < 2 ^ 63 \<and>
   length (ds_records ex_vlen ! 2) < 2 ^ 63 \<and>
   (0::nat) < prod_list [2] \<and> length (ds_records ex_vlen ! 2) = 3 * prod_list [2] \<and>
   sample_count_fn ex_vlen 2 = Inr (IntNum 3) \<and>
   [1, 2, 3] \<in> set (ds_records ex_ragged) \<and> length [1, 2, 3 :: int] mod prod_list [2] \<noteq> 0 \<and>
   ds_vlen ex_ragged \<and>
   reshape_loop ex_ragged [2] (np_prod [2]) (ds_records ex_ragged) [] 0 = Inl ValueError"
proof -
  have l: "\<not> is_seq_attr ex_label" by (simp add: ex_label_def is_seq_attr_def)
  have a: "sample_count_fn ex_label 1 = Inr (IntNum 1)"
    using sample_count_is_floored_quotient[of ex_label 1 "[]" "[]" "[]" "[]" 0] l by blast
  have v: "is_seq_attr ex_vlen" "attrs_shape ex_vlen = Some [2]" "2 < length (ds_records ex_vlen)"
    "ds_vlen ex_vlen" "[2::nat] \<noteq> []" "prod_list [2::nat] < 2 ^ 63"
    "length (ds_records ex_vlen ! 2) < 2 ^ 63" "(0::nat) < prod_list [2]"
    "length (ds_records ex_vlen ! 2) = 3 * prod_list [2]"
    by (simp_all add: ex_vlen_def is_seq_attr_def)
  have "sample_count_fn ex_vlen 2 = Inr (IntNum (int 3))"
    using sample_count_is_floored_quotient[of ex_vlen 2 "[2]" "[]" "[]" "[]" 0] v by blast
  then have b: "sample_count_fn ex_vlen 2 = Inr (IntNum 3)" by simp
  have g: "[1, 2, 3] \<in> set (ds_records ex_ragged)" "length [1, 2, 3 :: int] mod prod_list [2] \<noteq> 0"
    "ds_vlen ex_ragged" "[2::nat] \<noteq> []"
    by (simp_all add: ex_ragged_def)
  have c: "reshape_loop ex_ragged [2] (np_prod [2]) (ds_records ex_ragged) [] 0 = Inl ValueError"
    using sample_count_is_floored_quotient
            [of ex_ragged 0 "[2]" "[1, 2, 3]" "ds_records ex_ragged" "[]" 0] g
    by blast
  from l a v b g c show ?thesis by simp
qed

section \<open>The reshape round trip\<close>

text \<open>
  The whole loop on records that are all exact multiples: every record is reshaped, in
  order, and the sequence lengths are added up.
\<close>

lemma reshape_loop_exact:
  assumes "ds_vlen ds" and "shp \<noteq> []" and "0 < prod_list shp"
  shows "\<forall>seq\<in>set data. length seq mod prod_list shp = 0 \<and> length seq < 2 ^ 63 \<Longrightarrow>
     reshape_loop ds shp (np_prod shp) data acc sc =
       Inr (acc @ map (\<lambda>seq. np_fill ((length seq div prod_list shp) # shp) seq) data,
            fold (\<lambda>seq s. int64 (s + int (length seq div prod_list shp))) data sc)"
proof (induction data arbitrary: acc sc)
  case Nil
  then show ?case by simp
next
  case (Cons seq rest)
  let ?P = "prod_list shp" and ?k = "length seq div prod_list shp"
  from Cons.prems have m: "length seq mod ?P = 0" and small: "length seq < 2 ^ 63" by simp_all
  from m have len: "length seq = ?k * ?P" by auto
  have sl: "floor_div (np_prod (record_shape ds seq)) (np_prod shp) = IntNum (int ?k)"
    using seq_len_multiple[OF assms len small] by (simp add: seq_len_of_def)
  have rs: "np_reshape seq (int ?k # map int shp) = Inr (np_fill (?k # shp) seq)"
    using len assms(3) small by (intro np_reshape_exact) simp_all
  have rest: "\<forall>seq\<in>set rest. length seq mod ?P = 0 \<and> length seq < 2 ^ 63"
    using Cons.prems by simp
  have "reshape_loop ds shp (np_prod shp) (seq # rest) acc sc =
        reshape_loop ds shp (np_prod shp) rest (acc @ [np_fill (?k # shp) seq])
          (int64 (sc + int ?k))"
    using sl rs by (simp add: Let_def del: np_fill.simps)
  also note Cons.IH[OF rest]
  finally show ?case by (simp del: np_fill.simps)
qed




end
